theory Spec2Isabelle
  imports Main
begin

unbundle bit_operations_syntax

section \<open>Go strings, runes and the library functions gophen.go calls\<close>

text \<open>
  A Go \<^verbatim>\<open>string\<close> is a sequence of bytes; \<^verbatim>\<open>len(s)\<close>, \<^verbatim>\<open>s[i]\<close> and \<^verbatim>\<open>s[a:b]\<close> count bytes.
  It is modelled as \<^typ>\<open>string\<close> (a list of 8-bit characters).  Only
  \<^verbatim>\<open>utf8.RuneCountInString\<close> and the regular expressions look at code points.
\<close>

definition byte :: "char \<Rightarrow> nat" where
  "byte c = of_char c"

text \<open>
  The table \<^verbatim>\<open>first\<close> of \<^verbatim>\<open>unicode/utf8\<close>: for the lead byte of a multi-byte
  sequence, its size and the range accepted for the second byte.  \<open>None\<close> stands for
  ASCII and for bytes that cannot start a sequence (both have width 1).
\<close>

definition first :: "char \<Rightarrow> (nat \<times> nat \<times> nat) option" where
  "first c = (let b = byte c in
     if 0xC2 \<le> b \<and> b \<le> 0xDF then Some (2, 0x80, 0xBF)
     else if b = 0xE0 then Some (3, 0xA0, 0xBF)
     else if (0xE1 \<le> b \<and> b \<le> 0xEC) \<or> b = 0xEE \<or> b = 0xEF then Some (3, 0x80, 0xBF)
     else if b = 0xED then Some (3, 0x80, 0x9F)
     else if b = 0xF0 then Some (4, 0x90, 0xBF)
     else if 0xF1 \<le> b \<and> b \<le> 0xF3 then Some (4, 0x80, 0xBF)
     else if b = 0xF4 then Some (4, 0x80, 0x8F)
     else None)"

definition in_range :: "nat \<Rightarrow> nat \<Rightarrow> char \<Rightarrow> bool" where
  "in_range lo hi c = (lo \<le> byte c \<and> byte c \<le> hi)"

text \<open>
  The width that \<^verbatim>\<open>utf8.DecodeRuneInString\<close> returns: the size of a well-formed
  sequence, 1 for ASCII and for every ill-formed or truncated sequence, 0 for the
  empty string.
\<close>

fun rune_width :: "string \<Rightarrow> nat" where
  "rune_width [] = 0"
| "rune_width (s0 # t) =
     (case first s0 of
        None \<Rightarrow> 1
      | Some (sz, lo, hi) \<Rightarrow>
          if length (s0 # t) < sz then 1
          else if \<not> in_range lo hi (t ! 0) then 1
          else if sz \<le> 2 then 2
          else if \<not> in_range 0x80 0xBF (t ! 1) then 1
          else if sz \<le> 3 then 3
          else if \<not> in_range 0x80 0xBF (t ! 2) then 1
          else 4)"

text \<open>\<^verbatim>\<open>utf8.RuneCountInString\<close>: the number of decoding steps over the string.\<close>

function RuneCountInString :: "string \<Rightarrow> nat" where
  "RuneCountInString s =
     (if s = [] then 0 else Suc (RuneCountInString (drop (rune_width s) s)))"
  by pat_completeness auto
termination
proof (relation "measure length")
  show "wf (measure length)" by simp
next
  fix s :: string
  assume "s \<noteq> []"
  then have "0 < rune_width s"
    by (cases s) (auto split: option.splits)
  with \<open>s \<noteq> []\<close> show "(drop (rune_width s) s, s) \<in> measure length"
    by simp
qed

declare RuneCountInString.simps [simp del]

text \<open>\<^verbatim>\<open>string(rune(r))\<close> for a code point below 256: one byte for ASCII, two above.\<close>

definition encodeRune :: "nat \<Rightarrow> string" where
  "encodeRune r =
     (if r < 0x80 then [char_of r]
      else [char_of (0xC0 + r div 64), char_of (0x80 + r mod 64)])"

subsection \<open>Package strings\<close>

definition HasPrefix :: "string \<Rightarrow> string \<Rightarrow> bool" where
  "HasPrefix s prefix = (length prefix \<le> length s \<and> take (length prefix) s = prefix)"

text \<open>\<^verbatim>\<open>strings.Contains(s, sep)\<close> for a one-byte \<open>sep\<close>.\<close>

definition Contains :: "string \<Rightarrow> char \<Rightarrow> bool" where
  "Contains s sep = (sep \<in> set s)"

text \<open>\<^verbatim>\<open>strings.Split(s, sep)\<close> for a one-byte \<open>sep\<close>: always at least one part.\<close>

fun Split :: "string \<Rightarrow> char \<Rightarrow> string list" where
  "Split [] sep = [[]]"
| "Split (c # cs) sep =
     (if c = sep then [] # Split cs sep
      else (case Split cs sep of [] \<Rightarrow> [[c]] | p # ps \<Rightarrow> (c # p) # ps))"

text \<open>\<^verbatim>\<open>strings.SplitN(s, sep, 2)\<close> for a one-byte \<open>sep\<close>: cut at the first \<open>sep\<close>.\<close>

definition SplitN2 :: "string \<Rightarrow> char \<Rightarrow> string list" where
  "SplitN2 s sep =
     (if sep \<in> set s then [takeWhile (\<lambda>c. c \<noteq> sep) s, tl (dropWhile (\<lambda>c. c \<noteq> sep) s)]
      else [s])"

text \<open>
  The functions of the Go library that consult the Unicode tables (case mapping, the
  White_Space property, the Windows-1251 code page) are parameters of the model.  Each
  is the slow path that the library takes on a string holding a byte \<open>\<ge> 0x80\<close>; the
  ASCII fast paths are modelled below as the library has them.
\<close>

record externs =
  mapToLower :: "string \<Rightarrow> string"
  mapToUpper :: "string \<Rightarrow> string"
  trimFuncIsSpace :: "string \<Rightarrow> string"
  trimRightFuncIsSpace :: "string \<Rightarrow> string"
  decodeWindows1251 :: "string \<Rightarrow> string option"

definition isASCII :: "string \<Rightarrow> bool" where
  "isASCII s = list_all (\<lambda>c. byte c < 0x80) s"

definition lowerByte :: "char \<Rightarrow> char" where
  "lowerByte c = (if 0x41 \<le> byte c \<and> byte c \<le> 0x5A then char_of (byte c + 32) else c)"

definition upperByte :: "char \<Rightarrow> char" where
  "upperByte c = (if 0x61 \<le> byte c \<and> byte c \<le> 0x7A then char_of (byte c - 32) else c)"

text \<open>
  \<^verbatim>\<open>strings.ToLower\<close>: an all-ASCII string has its bytes \<open>A..Z\<close> replaced; any other
  string goes through \<^verbatim>\<open>strings.Map(unicode.ToLower, s)\<close>.  \<^verbatim>\<open>strings.ToUpper\<close> alike.
\<close>

definition ToLower :: "externs \<Rightarrow> string \<Rightarrow> string" where
  "ToLower X s = (if isASCII s then map lowerByte s else mapToLower X s)"

definition ToUpper :: "externs \<Rightarrow> string \<Rightarrow> string" where
  "ToUpper X s = (if isASCII s then map upperByte s else mapToUpper X s)"

definition asciiSpace :: "char \<Rightarrow> bool" where
  "asciiSpace c = (byte c \<in> {0x09, 0x0A, 0x0B, 0x0C, 0x0D, 0x20})"

text \<open>
  \<^verbatim>\<open>strings.TrimSpace\<close>: skip ASCII white space from the left, then from the right; at
  the first byte \<open>\<ge> 0x80\<close> met on the way, hand what is left to the Unicode-aware
  \<^verbatim>\<open>TrimFunc\<close> (from the left) or \<^verbatim>\<open>TrimRightFunc\<close> (from the right).
\<close>

fun trimStop :: "externs \<Rightarrow> string \<Rightarrow> string" where
  "trimStop X [] = []"
| "trimStop X (c # r) =
     (if 0x80 \<le> byte c then trimRightFuncIsSpace X (rev (c # r))
      else if asciiSpace c then trimStop X r
      else rev (c # r))"

fun TrimSpace :: "externs \<Rightarrow> string \<Rightarrow> string" where
  "TrimSpace X [] = []"
| "TrimSpace X (c # cs) =
     (if 0x80 \<le> byte c then trimFuncIsSpace X (c # cs)
      else if asciiSpace c then TrimSpace X cs
      else trimStop X (rev (c # cs)))"

subsection \<open>Package strconv\<close>

definition isDigit :: "char \<Rightarrow> bool" where
  "isDigit c = (0x30 \<le> byte c \<and> byte c \<le> 0x39)"

definition digitsValue :: "string \<Rightarrow> int option" where
  "digitsValue s =
     (if s = [] \<or> \<not> list_all isDigit s then None
      else Some (foldl (\<lambda>n c. 10 * n + int (byte c - 0x30)) 0 s))"

text \<open>
  \<^verbatim>\<open>strconv.Atoi\<close> with its error dropped, as every caller in gophen.go does: an
  optional sign and decimal digits give the number, clamped to the range of a 64-bit
  \<^verbatim>\<open>int\<close>; anything else gives 0.
\<close>

definition Atoi :: "string \<Rightarrow> int" where
  "Atoi s =
     (case s of
        [] \<Rightarrow> 0
      | c # t \<Rightarrow>
          if c = CHR ''-'' then
            (case digitsValue t of None \<Rightarrow> 0 | Some n \<Rightarrow> - min n (2 ^ 63))
          else if c = CHR ''+'' then
            (case digitsValue t of None \<Rightarrow> 0 | Some n \<Rightarrow> min n (2 ^ 63 - 1))
          else
            (case digitsValue s of None \<Rightarrow> 0 | Some n \<Rightarrow> min n (2 ^ 63 - 1)))"

fun decimal :: "nat \<Rightarrow> string" where
  "decimal n =
     (if n < 10 then [char_of (0x30 + n)]
      else decimal (n div 10) @ [char_of (0x30 + n mod 10)])"

declare decimal.simps [simp del]

definition Itoa :: "int \<Rightarrow> string" where
  "Itoa i = (if i < 0 then CHR ''-'' # decimal (nat (- i)) else decimal (nat i))"

text \<open>Arithmetic on a 64-bit \<^verbatim>\<open>int\<close> wraps around.\<close>

definition wrap64 :: "int \<Rightarrow> int" where
  "wrap64 x = (x + 2 ^ 63) mod 2 ^ 64 - 2 ^ 63"

subsection \<open>The two regular expressions\<close>

definition isHexDigit :: "char \<Rightarrow> bool" where
  "isHexDigit c =
     (isDigit c \<or> (0x41 \<le> byte c \<and> byte c \<le> 0x46) \<or> (0x61 \<le> byte c \<and> byte c \<le> 0x66))"

definition hexValue :: "char \<Rightarrow> nat" where
  "hexValue c =
     (if isDigit c then byte c - 0x30
      else if 0x41 \<le> byte c \<and> byte c \<le> 0x46 then byte c - 0x41 + 10
      else byte c - 0x61 + 10)"

text \<open>
  \<^verbatim>\<open>parseHex.ReplaceAllStringFunc\<close>: every leftmost, non-overlapping \<^verbatim>\<open>^^hh\<close> is
  replaced by the character with that code.
\<close>

fun parseHex :: "string \<Rightarrow> string" where
  "parseHex (a # b # h1 # h2 # rest) =
     (if a = CHR ''^'' \<and> b = CHR ''^'' \<and> isHexDigit h1 \<and> isHexDigit h2
      then encodeRune (16 * hexValue h1 + hexValue h2) @ parseHex rest
      else a # parseHex (b # h1 # h2 # rest))"
| "parseHex s = s"

text \<open>
  \<^verbatim>\<open>parse.FindAllStringSubmatch(pattern, -1)\<close> for \<^verbatim>\<open>(\d?)(\D?)\<close>: each match takes an
  optional ASCII digit, then an optional rune that is not a digit.  Inside the string
  every match is non-empty; the empty match at the end of the string is dropped because
  it touches the match before it, so it is only kept when the whole string is empty.
\<close>

function parseFrom :: "string \<Rightarrow> (string \<times> string) list" where
  "parseFrom [] = []"
| "parseFrom (c # t) =
     (if isDigit c then
        (if t \<noteq> [] \<and> \<not> isDigit (hd t)
         then ([c], take (rune_width t) t) # parseFrom (drop (rune_width t) t)
         else ([c], []) # parseFrom t)
      else ([], take (rune_width (c # t)) (c # t)) # parseFrom (drop (rune_width (c # t) - 1) t))"
  by pat_completeness auto
termination
  by (relation "measure length") auto

definition parse :: "string \<Rightarrow> (string \<times> string) list" where
  "parse s = (if s = [] then [([], [])] else parseFrom s)"

section \<open>gophen.go\<close>

text \<open>
  What can go wrong: the three errors \<^verbatim>\<open>NewHyphDict\<close> returns, and the two run-time
  panics of Go (an index or a slice bound out of range), which end the program.
\<close>

datatype error = FailedToOpen | FailedToRead | InvalidFormat | IndexOutOfRange | SliceOutOfRange

fun foldM :: "('a \<Rightarrow> 's \<Rightarrow> error + 's) \<Rightarrow> 'a list \<Rightarrow> 's \<Rightarrow> error + 's" where
  "foldM f [] s = Inr s"
| "foldM f (x # xs) s = (case f x s of Inl e \<Rightarrow> Inl e | Inr s' \<Rightarrow> foldM f xs s')"

subsection \<open>Weights\<close>

text \<open>
  \<^verbatim>\<open>hyphDataInt\<close>: an int with associated data; \<open>hdata\<close> is \<open>None\<close> for a nil slice.
  (The fields \<^verbatim>\<open>value\<close> and \<^verbatim>\<open>data\<close> of the source.)
\<close>

record hyphDataInt =
  hvalue :: int
  hdata :: "string list option"

text \<open>An \<^verbatim>\<open>interface{}\<close> as the source uses it: nil, an \<^verbatim>\<open>int\<close> or a \<^verbatim>\<open>hyphDataInt\<close>.\<close>

datatype iface = NilV | IntV int | DataV hyphDataInt

subsection \<open>AlternativeParser\<close>

record AlternativeParser =
  change :: string
  index :: int
  cut :: int

definition atoi :: "string \<Rightarrow> int" where
  "atoi s = Atoi s"

text \<open>\<^verbatim>\<open>parts[1]\<close> and \<^verbatim>\<open>parts[2]\<close> panic when the clause has fewer than three parts.\<close>

definition newAlternativeParser :: "string \<Rightarrow> string \<Rightarrow> error + AlternativeParser" where
  "newAlternativeParser pattern alternative =
     (let parts = Split alternative (CHR '','') in
      if length parts \<le> 1 then Inl IndexOutOfRange
      else if length parts \<le> 2 then Inl IndexOutOfRange
      else
        let p = \<lparr>change = parts ! 0, index = atoi (parts ! 1), cut = atoi (parts ! 2)\<rparr>
        in Inr (if HasPrefix pattern ''.'' then p\<lparr>index := wrap64 (index p + 1)\<rparr> else p))"

definition Parse :: "AlternativeParser \<Rightarrow> int \<Rightarrow> iface \<times> AlternativeParser" where
  "Parse p v =
     (let p' = p\<lparr>index := wrap64 (index p - 1)\<rparr> in
      if v AND 1 = 1
      then (DataV \<lparr>hvalue = v, hdata = Some [change p', Itoa (index p'), Itoa (cut p')]\<rparr>, p')
      else (IntV v, p'))"

subsection \<open>HyphDict and NewHyphDict\<close>

text \<open>
  The anonymous struct stored in \<^verbatim>\<open>patterns\<close>; \<open>vals\<close> is its field \<^verbatim>\<open>values\<close>.
  \<^verbatim>\<open>start\<close> and \<^verbatim>\<open>maxlen\<close> are ints that only ever hold a count (an index into
  \<^verbatim>\<open>values\<close>, a \<^verbatim>\<open>len(tags)\<close>), hence \<open>nat\<close>; so are the loop indices.
\<close>

record pattern =
  start :: nat
  vals :: "iface list"

record HyphDict =
  patterns :: "string \<rightharpoonup> pattern"
  cache :: "string \<rightharpoonup> hyphDataInt list"
  maxlen :: nat

definition ignored :: "string list" where
  "ignored = [''%'', ''#'', ''LEFTHYPHENMIN'', ''RIGHTHYPHENMIN'',
     ''COMPOUNDLEFTHYPHENMIN'', ''COMPOUNDRIGHTHYPHENMIN'']"

text \<open>The weight factory of a line: the identity, or the \<^verbatim>\<open>Parse\<close> method of a parser.\<close>

datatype factory = Identity | Alternative AlternativeParser

fun call :: "factory \<Rightarrow> int \<Rightarrow> iface \<times> factory" where
  "call Identity v = (IntV v, Identity)"
| "call (Alternative ap) v = (case Parse ap v of (r, ap') \<Rightarrow> (r, Alternative ap'))"

text \<open>
  The line as the loop body sees it after trimming, the blank and ignored lines left
  out (\<open>None\<close>), and the hex escapes replaced.
\<close>

definition prepare :: "externs \<Rightarrow> string \<Rightarrow> string option" where
  "prepare X line =
     (let pattern = TrimSpace X line in
      if pattern = [] then None
      else if list_ex (\<lambda>prefix. HasPrefix pattern prefix) ignored then None
      else Some (parseHex pattern))"

text \<open>A line with both \<^verbatim>\<open>/\<close> and \<^verbatim>\<open>=\<close> is cut at the first \<^verbatim>\<open>/\<close> and gets a parser.\<close>

definition factoryFor :: "string \<Rightarrow> error + (string \<times> factory)" where
  "factoryFor pattern =
     (if Contains pattern (CHR ''/'') \<and> Contains pattern (CHR ''='') then
        (let parts = SplitN2 pattern (CHR ''/'') in
         if length parts \<le> 1 then Inl IndexOutOfRange
         else
           (case newAlternativeParser (parts ! 0) (parts ! 1) of
              Inl e \<Rightarrow> Inl e
            | Inr ap \<Rightarrow> Inr (parts ! 0, Alternative ap)))
      else Inr (pattern, Identity))"

text \<open>The loop over the matches: the tags, and the values the factory makes in turn.\<close>

fun makeValues :: "factory \<Rightarrow> (string \<times> string) list \<Rightarrow> iface list" where
  "makeValues f [] = []"
| "makeValues f ((i, s) # matches) =
     (case call f (Atoi i) of (v, f') \<Rightarrow> v # makeValues f' matches)"

definition hasNonZero :: "iface list \<Rightarrow> bool" where
  "hasNonZero values =
     list_ex (\<lambda>v. case v of IntV i \<Rightarrow> 0 < i | DataV d \<Rightarrow> True | NilV \<Rightarrow> False) values"

text \<open>The two trimming loops; \<^verbatim>\<open>values[start]\<close> and \<^verbatim>\<open>values[end-1]\<close> panic out of range.\<close>

function trimStart :: "iface list \<Rightarrow> nat \<Rightarrow> error + nat" where
  "trimStart values st =
     (if length values \<le> st then Inl IndexOutOfRange
      else if values ! st = IntV 0 then trimStart values (Suc st)
      else Inr st)"
  by pat_completeness auto
termination
  by (relation "measure (\<lambda>(values, st). length values - st)") auto

declare trimStart.simps [simp del]

fun trimEnd :: "iface list \<Rightarrow> nat \<Rightarrow> error + nat" where
  "trimEnd values 0 = Inl IndexOutOfRange"
| "trimEnd values (Suc en) =
     (if length values \<le> en then Inl IndexOutOfRange
      else if values ! en = IntV 0 then trimEnd values en
      else Inr (Suc en))"

text \<open>From the check for a signal to the store into the map.\<close>

definition store ::
  "(string \<rightharpoonup> pattern) \<times> nat \<Rightarrow> string list \<Rightarrow> iface list \<Rightarrow> error + (string \<rightharpoonup> pattern) \<times> nat" where
  "store st tags values =
     (if \<not> hasNonZero values then Inr st
      else
        (case trimStart values 0 of
           Inl e \<Rightarrow> Inl e
         | Inr s \<Rightarrow>
             (case trimEnd values (length values) of
                Inl e \<Rightarrow> Inl e
              | Inr en \<Rightarrow>
                  if en < s then Inl SliceOutOfRange
                  else
                    Inr ((fst st)(concat tags \<mapsto> \<lparr>start = s, vals = take (en - s) (drop s values)\<rparr>),
                         if snd st < length tags then length tags else snd st))))"

text \<open>The body of the loop over the lines.\<close>

definition loadLine ::
  "externs \<Rightarrow> string \<Rightarrow> (string \<rightharpoonup> pattern) \<times> nat \<Rightarrow> error + (string \<rightharpoonup> pattern) \<times> nat" where
  "loadLine X line st =
     (case prepare X line of
        None \<Rightarrow> Inr st
      | Some pattern \<Rightarrow>
          (case factoryFor pattern of
             Inl e \<Rightarrow> Inl e
           | Inr (pattern', f) \<Rightarrow>
               store st (map snd (parse pattern')) (makeValues f (parse pattern'))))"

text \<open>What opening and reading the embedded file gives.\<close>

datatype embedded = OpenFails | ReadFails | Contents string

text \<open>
  The step for a dictionary whose first line names Windows-1251: every later line is
  decoded, and a line that fails to decode is kept as it is.
\<close>

definition decodeLines :: "externs \<Rightarrow> string list \<Rightarrow> string list" where
  "decodeLines X lines =
     (let encoding = ToLower X (TrimSpace X (lines ! 0)) in
      if encoding = ''microsoft-cp1251''
      then (lines ! 0) #
        map (\<lambda>line. case decodeWindows1251 X line of None \<Rightarrow> line | Some u \<Rightarrow> u) (tl lines)
      else lines)"

definition NewHyphDict :: "externs \<Rightarrow> embedded \<Rightarrow> error + HyphDict" where
  "NewHyphDict X f =
     (case f of
        OpenFails \<Rightarrow> Inl FailedToOpen
      | ReadFails \<Rightarrow> Inl FailedToRead
      | Contents data \<Rightarrow>
          (let lines = Split data (CHR 0x0A) in
           if length lines < 2 then Inl InvalidFormat
           else
             (case foldM (loadLine X) (tl (decodeLines X lines)) (Map.empty, 0) of
                Inl e \<Rightarrow> Inl e
              | Inr st \<Rightarrow> Inr \<lparr>patterns = fst st, cache = Map.empty, maxlen = snd st\<rparr>)))"

subsection \<open>Positions\<close>

text \<open>\<^verbatim>\<open>s[runeIndex:]\<close> panics beyond the end of the string.\<close>

definition byteIndex :: "string \<Rightarrow> nat \<Rightarrow> error + nat" where
  "byteIndex s runeIndex =
     (if length s < runeIndex then Inl SliceOutOfRange
      else Inr (length s - length (drop runeIndex s)))"

text \<open>The slice expression \<^verbatim>\<open>s[a:b]\<close>.\<close>

definition slice :: "string \<Rightarrow> nat \<Rightarrow> nat \<Rightarrow> error + string" where
  "slice s a b = (if a \<le> b \<and> b \<le> length s then Inr (take (b - a) (drop a s)) else Inl SliceOutOfRange)"

definition subWord :: "string \<Rightarrow> nat \<Rightarrow> nat \<Rightarrow> error + string" where
  "subWord pointedWord i j =
     (case byteIndex pointedWord i of
        Inl e \<Rightarrow> Inl e
      | Inr a \<Rightarrow>
          (case byteIndex pointedWord j of
             Inl e \<Rightarrow> Inl e
           | Inr b \<Rightarrow> slice pointedWord a b))"

text \<open>The two type switches of the max logic: the number in a slot, and its data.\<close>

definition numeric :: "iface \<Rightarrow> int" where
  "numeric r = (case r of IntV n \<Rightarrow> n | DataV d \<Rightarrow> hvalue d | NilV \<Rightarrow> 0)"

definition payload :: "iface \<Rightarrow> string list option" where
  "payload v = (case v of DataV d \<Rightarrow> hdata d | _ \<Rightarrow> None)"

definition merge :: "iface \<Rightarrow> iface \<Rightarrow> iface" where
  "merge r v =
     (let current = numeric r; patternVal = numeric v; data = payload v in
      if current < patternVal then
        (case data of
           Some d \<Rightarrow> DataV \<lparr>hvalue = patternVal, hdata = Some d\<rparr>
         | None \<Rightarrow> IntV patternVal)
      else r)"

text \<open>
  The loop \<^verbatim>\<open>for k, v := range values\<close>, with \<open>base = i + offset\<close>; reading
  \<^verbatim>\<open>references[idx]\<close> panics out of range.
\<close>

fun mergeValues :: "iface list \<Rightarrow> nat \<Rightarrow> nat \<Rightarrow> iface list \<Rightarrow> error + iface list" where
  "mergeValues references base k [] = Inr references"
| "mergeValues references base k (v # values) =
     (let idx = base + k in
      if length references \<le> idx then Inl IndexOutOfRange
      else mergeValues (references[idx := merge (references ! idx) v]) base (Suc k) values)"

text \<open>The body of the loop over \<open>j\<close>.\<close>

definition window :: "HyphDict \<Rightarrow> string \<Rightarrow> nat \<times> nat \<Rightarrow> iface list \<Rightarrow> error + iface list" where
  "window dict pointedWord ij references =
     (case subWord pointedWord (fst ij) (snd ij) of
        Inl e \<Rightarrow> Inl e
      | Inr sw \<Rightarrow>
          (case patterns dict sw of
             None \<Rightarrow> Inr references
           | Some p \<Rightarrow> mergeValues references (fst ij + start p) 0 (vals p)))"

text \<open>
  The pairs \<open>(i, j)\<close> the two loops visit, in order: \<open>i\<close> from 0 below \<open>n - 1\<close>, \<open>j\<close>
  from \<open>i + 1\<close> below \<open>stop = min (i + maxlen) n + 1\<close>, for \<open>n\<close> the rune count of the
  pointed word.
\<close>

definition windows :: "nat \<Rightarrow> nat \<Rightarrow> (nat \<times> nat) list" where
  "windows ml n =
     concat (map (\<lambda>i. map (\<lambda>j. (i, j)) [i + 1 ..< min (i + ml) n + 1]) [0 ..< n - 1])"

text \<open>The last loop: a point for every slot that holds an odd number.\<close>

fun points :: "nat \<Rightarrow> iface list \<Rightarrow> hyphDataInt list" where
  "points i [] = []"
| "points i (ref # refs) =
     (case ref of
        IntV v \<Rightarrow> if v mod 2 \<noteq> 0 then [\<lparr>hvalue = int i - 1, hdata = None\<rparr>] else []
      | DataV hdi \<Rightarrow> if hvalue hdi mod 2 \<noteq> 0 then [\<lparr>hvalue = int i - 1, hdata = hdata hdi\<rparr>] else []
      | NilV \<Rightarrow> [])
     @ points (Suc i) refs"

text \<open>\<^verbatim>\<open>Positions\<close> from the pointed word on, for a lowercased word not in the cache.\<close>

definition scan :: "HyphDict \<Rightarrow> string \<Rightarrow> error + hyphDataInt list" where
  "scan dict word =
     (let pointedWord = ''.'' @ word @ ''.'';
          n = RuneCountInString pointedWord;
          references = replicate (n + 1) NilV
      in
        (case foldM (window dict pointedWord) (windows (maxlen dict) n) references of
           Inl e \<Rightarrow> Inl e
         | Inr refs \<Rightarrow> Inr (points 0 refs)))"

definition Positions :: "externs \<Rightarrow> HyphDict \<Rightarrow> string \<Rightarrow> error + hyphDataInt list \<times> HyphDict" where
  "Positions X dict word =
     (let word' = ToLower X word in
      case cache dict word' of
        Some pts \<Rightarrow> Inr (pts, dict)
      | None \<Rightarrow>
          (case scan dict word' of
             Inl e \<Rightarrow> Inl e
           | Inr pts \<Rightarrow> Inr (pts, dict\<lparr>cache := (cache dict)(word' \<mapsto> pts)\<rparr>)))"

subsection \<open>An instance of the library parameters\<close>

text \<open>
  For the concrete runs below: on a string with no letter to map and no white space to
  trim beyond ASCII the Unicode slow paths return their argument, and the code page
  decoder is not reached unless the first line names it.
\<close>

definition plainExterns :: externs where
  "plainExterns =
     \<lparr>mapToLower = (\<lambda>s. s), mapToUpper = (\<lambda>s. s), trimFuncIsSpace = (\<lambda>s. s),
      trimRightFuncIsSpace = (\<lambda>s. s), decodeWindows1251 = (\<lambda>s. Some s)\<rparr>"

subsection \<open>Runs from dictionary text to positions\<close>

text \<open>Load a dictionary from its text and ask it for the positions of one word.\<close>

definition positionsIn :: "externs \<Rightarrow> string \<Rightarrow> string \<Rightarrow> error + hyphDataInt list" where
  "positionsIn X data word =
     (case NewHyphDict X (Contents data) of
        Inl e \<Rightarrow> Inl e
      | Inr dict \<Rightarrow> map_sum id fst (Positions X dict word))"

text \<open>The dictionary that the single pattern line \<^verbatim>\<open>a1\<close> gives.\<close>

definition a1Dict :: HyphDict where
  "a1Dict =
     \<lparr>patterns = [''a'' \<mapsto> \<lparr>start = 1, vals = [IntV 1]\<rparr>], cache = Map.empty, maxlen = 2\<rparr>"

text \<open>
  The dictionary that the single pattern line \<^verbatim>\<open>a1/b=c,1,1\<close> gives: its counter
  starts at 1, is 0 at the first weight (0, even, plain) and \<open>-1\<close> at the second
  (1, odd, tagged).
\<close>

definition taggedDict :: HyphDict where
  "taggedDict =
     \<lparr>patterns =
        [''a'' \<mapsto> \<lparr>start = 1, vals = [DataV \<lparr>hvalue = 1, hdata = Some [''b=c'', ''-1'', ''1'']\<rparr>]\<rparr>],
      cache = Map.empty, maxlen = 2\<rparr>"

section \<open>Notions the properties are stated with\<close>

text \<open>
  Following the words of the specification, for comparison with \<open>subWord\<close>: the code
  points \<open>i .. j - 1\<close> of a string.
\<close>

fun dropRunes :: "nat \<Rightarrow> string \<Rightarrow> string" where
  "dropRunes 0 s = s"
| "dropRunes (Suc n) s = dropRunes n (drop (rune_width s) s)"

fun takeRunes :: "nat \<Rightarrow> string \<Rightarrow> string" where
  "takeRunes 0 s = []"
| "takeRunes (Suc n) s = take (rune_width s) s @ takeRunes n (drop (rune_width s) s)"

definition runeWindow :: "string \<Rightarrow> nat \<Rightarrow> nat \<Rightarrow> string" where
  "runeWindow s i j = takeRunes (j - i) (dropRunes i s)"

text \<open>A word is case-foldable when lowering undoes raising and lowering twice changes nothing.\<close>

definition caseFoldable :: "externs \<Rightarrow> string \<Rightarrow> bool" where
  "caseFoldable X w =
     (ToLower X (ToLower X w) = ToLower X w \<and> ToLower X (ToUpper X w) = ToLower X w)"

text \<open>Every cached result is what the scan computes: true of a new dictionary, and kept by \<open>Positions\<close>.\<close>

definition cacheOK :: "HyphDict \<Rightarrow> bool" where
  "cacheOK dict = (\<forall>w pts. cache dict w = Some pts \<longrightarrow> scan dict w = Inr pts)"

text \<open>
  Every entry has at most one weight more than its key has bytes, counting the weights
  trimmed on the left.
\<close>

definition fits :: "(string \<rightharpoonup> pattern) \<Rightarrow> bool" where
  "fits pats = (\<forall>k p. pats k = Some p \<longrightarrow> start p + length (vals p) \<le> length k + 1)"

text \<open>A pattern with two digits side by side.\<close>

fun adjacentDigits :: "string \<Rightarrow> bool" where
  "adjacentDigits (a # b # r) = ((isDigit a \<and> isDigit b) \<or> adjacentDigits (b # r))"
| "adjacentDigits s = False"

text \<open>The base pattern of a line that reaches the scan, and the weights the scan gives it.\<close>

definition scannedPattern :: "externs \<Rightarrow> string \<Rightarrow> string option" where
  "scannedPattern X line =
     (case prepare X line of
        None \<Rightarrow> None
      | Some pattern \<Rightarrow>
          (case factoryFor pattern of Inl e \<Rightarrow> None | Inr (pattern', f) \<Rightarrow> Some pattern'))"

definition singleDigits :: "externs \<Rightarrow> string \<Rightarrow> bool" where
  "singleDigits X line =
     (case scannedPattern X line of None \<Rightarrow> True | Some pattern' \<Rightarrow> \<not> adjacentDigits pattern')"

definition lineWeights :: "externs \<Rightarrow> string \<Rightarrow> iface list option" where
  "lineWeights X line =
     (case prepare X line of
        None \<Rightarrow> None
      | Some pattern \<Rightarrow>
          (case factoryFor pattern of
             Inl e \<Rightarrow> None
           | Inr (pattern', f) \<Rightarrow> Some (makeValues f (parse pattern'))))"

text \<open>The number of tokens of a line that is stored; 0 for a line that is not.\<close>

definition storedTokens :: "externs \<Rightarrow> string \<Rightarrow> nat" where
  "storedTokens X line =
     (case lineWeights X line of
        None \<Rightarrow> 0
      | Some vs \<Rightarrow> if hasNonZero vs then length vs else 0)"

text \<open>What the loader makes: a non-negative int, or a \<open>hyphDataInt\<close> with an odd number.\<close>

definition weightOK :: "iface \<Rightarrow> bool" where
  "weightOK v = (case v of IntV i \<Rightarrow> 0 \<le> i | DataV d \<Rightarrow> odd (hvalue d) | NilV \<Rightarrow> False)"

text \<open>The two invariants of the loop over the lines.\<close>

definition signal :: "(string \<rightharpoonup> pattern) \<Rightarrow> bool" where
  "signal pats =
     (\<forall>k p. pats k = Some p \<longrightarrow>
        vals p \<noteq> [] \<and> numeric (hd (vals p)) \<noteq> 0 \<and> numeric (last (vals p)) \<noteq> 0)"

definition lettersWithin :: "(string \<rightharpoonup> pattern) \<times> nat \<Rightarrow> bool" where
  "lettersWithin st =
     (\<forall>k p. fst st k = Some p \<longrightarrow>
        (\<exists>tags. concat tags = k \<and> length tags \<le> snd st \<and>
           (\<forall>t \<in> set tags. RuneCountInString t \<le> 1)))"

section \<open>Properties\<close>

subsection \<open>Runes\<close>

lemma first_props: "first c = Some (sz, lo, hi) \<Longrightarrow> 2 \<le> sz \<and> sz \<le> 4 \<and> 0x80 \<le> lo \<and> 0x80 \<le> byte c"
  by (auto simp: first_def Let_def split: if_splits)

lemma first_ascii: "byte c < 0x80 \<Longrightarrow> first c = None"
  by (auto simp: first_def Let_def)

lemma rune_width_le_length: "rune_width s \<le> length s"
proof (cases s)
  case Nil
  then show ?thesis by simp
next
  case (Cons s0 t)
  show ?thesis
  proof (cases "first s0")
    case None
    with Cons show ?thesis by simp
  next
    case (Some q)
    obtain sz lo hi where q: "q = (sz, lo, hi)" by (cases q)
    from Some q first_props have "2 \<le> sz \<and> sz \<le> 4" by blast
    with Cons Some q show ?thesis by auto
  qed
qed

lemma rune_width_pos: "s \<noteq> [] \<Longrightarrow> 0 < rune_width s"
  by (cases s) (auto split: option.splits)

lemma rune_width_snoc_ascii:
  assumes "s \<noteq> []" and "byte c < 0x80"
  shows "rune_width (s @ [c]) = rune_width s"
proof -
  from assms(1) obtain s0 t where s: "s = s0 # t" by (cases s) auto
  show ?thesis
  proof (cases "first s0")
    case None
    with s show ?thesis by simp
  next
    case (Some q)
    obtain sz lo hi where q: "q = (sz, lo, hi)" by (cases q)
    from Some q first_props have sz: "2 \<le> sz" "sz \<le> 4" and lo: "0x80 \<le> lo" by blast+
    from assms(2) lo have c1: "\<not> in_range lo hi c" and c2: "\<not> in_range 0x80 0xBF c"
      by (auto simp: in_range_def)
    consider "length t = 0" | "length t = 1" | "length t = 2" | "3 \<le> length t" by arith
    then show ?thesis
    proof cases
      case 1
      with s Some q sz c1 show ?thesis by auto
    next
      case 2
      with s Some q sz c1 c2 show ?thesis by (auto simp: nth_append)
    next
      case 3
      with s Some q sz c1 c2 show ?thesis by (auto simp: nth_append)
    next
      case 4
      with s Some q sz show ?thesis by (auto simp: nth_append)
    qed
  qed
qed

lemma RuneCount_Cons_ascii:
  "byte c < 0x80 \<Longrightarrow> RuneCountInString (c # s) = Suc (RuneCountInString s)"
  by (subst RuneCountInString.simps) (simp add: first_ascii)

lemma RuneCount_snoc_ascii:
  "byte c < 0x80 \<Longrightarrow> RuneCountInString (s @ [c]) = Suc (RuneCountInString s)"
proof (induction s rule: RuneCountInString.induct)
  case (1 s)
  show ?case
  proof (cases "s = []")
    case True
    with 1(2) show ?thesis
      using RuneCount_Cons_ascii [of c "[]"] by (simp add: RuneCountInString.simps [of "[]"])
  next
    case False
    have w: "rune_width (s @ [c]) = rune_width s"
      using False 1(2) by (rule rune_width_snoc_ascii)
    have d: "drop (rune_width s) (s @ [c]) = drop (rune_width s) s @ [c]"
      using rune_width_le_length [of s] by simp
    from 1(1) [OF False 1(2)] w d False show ?thesis
      by (subst RuneCountInString.simps, subst (2) RuneCountInString.simps) simp
  qed
qed

lemma RuneCount_pointed:
  "RuneCountInString (''.'' @ w @ ''.'') = RuneCountInString w + 2"
proof -
  have a: "byte (CHR ''.'') < 0x80" by (simp add: byte_def)
  have "RuneCountInString (CHR ''.'' # (w @ [CHR ''.''])) = Suc (RuneCountInString (w @ [CHR ''.'']))"
    using a by (rule RuneCount_Cons_ascii)
  also have "RuneCountInString (w @ [CHR ''.'']) = Suc (RuneCountInString w)"
    using a by (rule RuneCount_snoc_ascii)
  finally show ?thesis by simp
qed

lemma RuneCount_le_length: "RuneCountInString s \<le> length s"
proof (induction s rule: RuneCountInString.induct)
  case (1 s)
  show ?case
  proof (cases "s = []")
    case True
    then show ?thesis by (simp add: RuneCountInString.simps)
  next
    case False
    from 1 [OF False] have "RuneCountInString (drop (rune_width s) s) \<le> length s - rune_width s"
      by simp
    moreover from False have "0 < rune_width s" by (rule rune_width_pos)
    moreover have "rune_width s \<le> length s" by (rule rune_width_le_length)
    ultimately show ?thesis
      using False by (subst RuneCountInString.simps) simp
  qed
qed

lemma rune_width_take: "rune_width (take (rune_width s) s) = rune_width s"
proof (cases s)
  case Nil
  then show ?thesis by simp
next
  case (Cons s0 t)
  show ?thesis
  proof (cases "first s0")
    case None
    with Cons show ?thesis by simp
  next
    case (Some q)
    obtain sz lo hi where q: "q = (sz, lo, hi)" by (cases q)
    from Some q first_props have sz: "2 \<le> sz" "sz \<le> 4" by blast+
    then consider "sz = 2" | "sz = 3" | "sz = 4" by arith
    then show ?thesis
    proof cases
      case 1
      with Cons Some q show ?thesis by (cases t) auto
    next
      case 2
      with Cons Some q show ?thesis
        by (cases t; cases "tl t") (auto simp: nth_Cons')
    next
      case 3
      with Cons Some q show ?thesis
        by (cases t; cases "tl t"; cases "tl (tl t)") (auto simp: nth_Cons')
    qed
  qed
qed

lemma RuneCount_one_rune: "RuneCountInString (take (rune_width s) s) \<le> 1"
proof (cases "s = []")
  case True
  then show ?thesis by (simp add: RuneCountInString.simps)
next
  case False
  then have ne: "take (rune_width s) s \<noteq> []"
    using rune_width_pos [of s] by auto
  have "drop (rune_width (take (rune_width s) s)) (take (rune_width s) s) = []"
    by (simp add: rune_width_take)
  with ne show ?thesis
    by (subst RuneCountInString.simps) (simp add: RuneCountInString.simps [of "[]"])
qed


lemma first_range: "first c = Some (sz, lo, hi) \<Longrightarrow> 0x80 \<le> lo \<and> hi \<le> 0xBF"
  by (auto simp: first_def Let_def split: if_splits)

lemma first_cont: "in_range 0x80 0xBF c \<Longrightarrow> first c = None"
  by (auto simp: first_def Let_def in_range_def)

lemma in_range_cont: "first c = Some (sz, lo, hi) \<Longrightarrow> in_range lo hi b \<Longrightarrow> in_range 0x80 0xBF b"
  using first_range [of c sz lo hi] by (auto simp: in_range_def)

lemma RuneCount_Cons_None:
  "first c = None \<Longrightarrow> RuneCountInString (c # r) = Suc (RuneCountInString r)"
  by (subst RuneCountInString.simps) simp

lemma RuneCount_drop_cont:
  "m \<le> length r \<Longrightarrow> \<forall>i < m. in_range 0x80 0xBF (r ! i) \<Longrightarrow>
     RuneCountInString (drop m r) \<le> RuneCountInString r"
proof (induction m arbitrary: r)
  case 0
  then show ?case by simp
next
  case (Suc m)
  then obtain c r' where r: "r = c # r'" by (cases r) auto
  with Suc.prems have "in_range 0x80 0xBF c" by auto
  then have "first c = None" by (rule first_cont)
  then have "RuneCountInString r = Suc (RuneCountInString r')"
    using r by (simp add: RuneCount_Cons_None)
  moreover from Suc.prems r have "m \<le> length r'" "\<forall>i < m. in_range 0x80 0xBF (r' ! i)"
    by auto
  then have "RuneCountInString (drop m r') \<le> RuneCountInString r'" by (rule Suc.IH)
  ultimately show ?case using r by simp
qed

lemma rune_width_conts:
  assumes "rune_width (c # r) = Suc m"
  shows "m \<le> length r \<and> (\<forall>i < m. in_range 0x80 0xBF (r ! i))"
proof (cases "first c")
  case None
  with assms show ?thesis by simp
next
  case (Some q)
  obtain sz lo hi where q: "q = (sz, lo, hi)" by (cases q)
  from Some q first_props have sz: "2 \<le> sz" "sz \<le> 4" by blast+
  have c: "in_range lo hi b \<Longrightarrow> in_range 0x80 0xBF b" for b
    using in_range_cont Some q by blast
  have two: "i < 2 \<longleftrightarrow> i = 0 \<or> i = 1" and three: "i < 3 \<longleftrightarrow> i = 0 \<or> i = 1 \<or> i = 2"
    for i :: nat by auto
  from assms Some q sz c show ?thesis
    by (auto simp: two three split: if_splits)
qed

lemma RuneCount_Cons_le: "RuneCountInString (c # r) \<le> Suc (RuneCountInString r)"
proof -
  obtain m where m: "rune_width (c # r) = Suc m"
    using rune_width_pos [of "c # r"] by (cases "rune_width (c # r)") auto
  from rune_width_conts [OF m] have "RuneCountInString (drop m r) \<le> RuneCountInString r"
    by (intro RuneCount_drop_cont) auto
  with m show ?thesis by (subst RuneCountInString.simps) simp
qed

lemma rune_width_append: "2 \<le> rune_width t \<Longrightarrow> rune_width (t @ r) = rune_width t"
proof (cases t)
  case Nil
  assume "2 \<le> rune_width t"
  with Nil show ?thesis by simp
next
  case (Cons s0 t')
  assume w: "2 \<le> rune_width t"
  show ?thesis
  proof (cases "first s0")
    case None
    with Cons w show ?thesis by simp
  next
    case (Some q)
    obtain sz lo hi where q: "q = (sz, lo, hi)" by (cases q)
    from Some q first_props have sz: "2 \<le> sz" "sz \<le> 4" by blast+
    from w Cons Some q sz show ?thesis
      by (auto simp: nth_append split: if_splits)
  qed
qed

lemma RuneCount_one_append:
  assumes "RuneCountInString t \<le> 1"
  shows "RuneCountInString (t @ r) \<le> Suc (RuneCountInString r)"
proof (cases t)
  case Nil
  then show ?thesis by simp
next
  case (Cons c t')
  show ?thesis
  proof (cases "t' = []")
    case True
    with Cons show ?thesis using RuneCount_Cons_le [of c r] by simp
  next
    case False
    from assms Cons have "RuneCountInString (drop (rune_width t) t) = 0"
      by (subst (asm) RuneCountInString.simps) simp
    then have "drop (rune_width t) t = []"
      by (subst (asm) RuneCountInString.simps) (simp split: if_splits)
    with rune_width_le_length [of t] have wl: "rune_width t = length t" by simp
    with Cons False have "2 \<le> rune_width t" by (cases t') auto
    then have "rune_width (t @ r) = rune_width t" by (rule rune_width_append)
    with wl Cons show ?thesis
      by (subst RuneCountInString.simps) simp
  qed
qed

lemma RuneCount_concat:
  "\<forall>t \<in> set tags. RuneCountInString t \<le> 1 \<Longrightarrow> RuneCountInString (concat tags) \<le> length tags"
proof (induction tags)
  case Nil
  then show ?case by (simp add: RuneCountInString.simps [of "[]"])
next
  case (Cons t tags)
  then have "RuneCountInString (concat tags) \<le> length tags" by simp
  moreover from Cons.prems have "RuneCountInString (t @ concat tags) \<le> Suc (RuneCountInString (concat tags))"
    by (intro RuneCount_one_append) simp
  ultimately show ?case by simp
qed

subsection \<open>Folding with errors\<close>

lemma foldM_invariant:
  assumes "foldM f xs s = Inr s'" and "P s"
    and "\<And>x t t'. x \<in> set xs \<Longrightarrow> P t \<Longrightarrow> f x t = Inr t' \<Longrightarrow> P t'"
  shows "P s'"
  using assms
proof (induction xs arbitrary: s)
  case Nil
  then show ?case by simp
next
  case (Cons x xs)
  from Cons.prems(1) obtain t where t: "f x s = Inr t" and r: "foldM f xs t = Inr s'"
    by (auto split: sum.splits)
  from Cons.prems(3) [of x s t] Cons.prems(2) t have p: "P t" by simp
  show ?case
  proof (rule Cons.IH [OF r p])
    fix y u u'
    assume "y \<in> set xs" "P u" "f y u = Inr u'"
    then show "P u'" using Cons.prems(3) [of y u u'] by simp
  qed
qed

lemma foldM_total:
  assumes "P s"
    and "\<And>x t. x \<in> set xs \<Longrightarrow> P t \<Longrightarrow> \<exists>t'. f x t = Inr t' \<and> P t'"
  shows "\<exists>s'. foldM f xs s = Inr s' \<and> P s'"
  using assms
proof (induction xs arbitrary: s)
  case Nil
  then show ?case by simp
next
  case (Cons x xs)
  from Cons.prems(2) [of x s] Cons.prems(1) obtain t where t: "f x s = Inr t" and p: "P t"
    by auto
  from Cons.IH [OF p] Cons.prems(2) obtain s' where "foldM f xs t = Inr s'" "P s'"
    by auto
  with t show ?case by simp
qed


subsection \<open>The merge of one matched pattern into the accumulator\<close>

lemma mergeValues_length:
  "mergeValues refs base k vs = Inr refs' \<Longrightarrow> length refs' = length refs"
  by (induction vs arbitrary: refs k) (auto simp: Let_def split: if_splits)

lemma mergeValues_below:
  "mergeValues refs base k vs = Inr refs' \<Longrightarrow> g < base + k \<Longrightarrow> refs' ! g = refs ! g"
  by (induction vs arbitrary: refs k) (auto simp: Let_def split: if_splits)

lemma mergeValues_nth:
  "mergeValues refs base k vs = Inr refs' \<Longrightarrow> m < length vs \<Longrightarrow>
     refs' ! (base + k + m) = merge (refs ! (base + k + m)) (vs ! m)"
proof (induction vs arbitrary: refs k m)
  case Nil
  then show ?case by simp
next
  case (Cons v vs)
  from Cons.prems(1) have len: "base + k < length refs"
    and rec: "mergeValues (refs[base + k := merge (refs ! (base + k)) v]) base (Suc k) vs = Inr refs'"
    by (auto simp: Let_def split: if_splits)
  show ?case
  proof (cases m)
    case 0
    from mergeValues_below [OF rec, of "base + k"] len
    show ?thesis using 0 by simp
  next
    case (Suc m')
    with Cons.prems(2) have "m' < length vs" by simp
    from Cons.IH [OF rec this] show ?thesis using Suc by simp
  qed
qed

lemma mergeValues_total:
  "base + k + length vs \<le> length refs \<Longrightarrow> \<exists>refs'. mergeValues refs base k vs = Inr refs'"
  by (induction vs arbitrary: refs k) (auto simp: Let_def)

text \<open>
  Claim C2.  The merge is a strict max-merge.  When the window \<open>[i, j)\<close> of the pointed
  word is a key of the dictionary, the slot \<open>g = i + start + k\<close> of the \<open>k\<close>-th weight
  of the entry is overwritten if and only if the weight's number is strictly greater
  than the number the slot held (nothing for an unset slot counts as 0): a plain weight
  then leaves a plain int in the slot, whatever data the slot had, and a tagged weight
  leaves its number together with its data; otherwise the slot is left as it was, so an
  equal weight does not overwrite.  The number in the slot afterwards is the maximum of
  the two, never their sum.
\<close>

theorem max_merge:
  assumes "window dict pointedWord (i, j) refs = Inr refs'"
    and "subWord pointedWord i j = Inr sw" and "patterns dict sw = Some p"
    and "k < length (vals p)"
  shows "let g = i + start p + k;
             current = (case refs ! g of IntV c \<Rightarrow> c | DataV cd \<Rightarrow> hvalue cd | NilV \<Rightarrow> 0)
         in
           (case vals p ! k of
              IntV n \<Rightarrow> refs' ! g = (if current < n then IntV n else refs ! g)
            | DataV d \<Rightarrow>
                refs' ! g =
                  (if current < hvalue d then
                     (case hdata d of
                        Some x \<Rightarrow> DataV \<lparr>hvalue = hvalue d, hdata = Some x\<rparr>
                      | None \<Rightarrow> IntV (hvalue d))
                   else refs ! g)
            | NilV \<Rightarrow> refs' ! g = (if current < 0 then IntV 0 else refs ! g))
           \<and> (case refs' ! g of IntV c \<Rightarrow> c | DataV cd \<Rightarrow> hvalue cd | NilV \<Rightarrow> 0) =
               max current (case vals p ! k of IntV n \<Rightarrow> n | DataV d \<Rightarrow> hvalue d | NilV \<Rightarrow> 0)"
proof -
  from assms(1-3) have "mergeValues refs (i + start p) 0 (vals p) = Inr refs'"
    by (simp add: window_def)
  from mergeValues_nth [OF this assms(4)]
  have "refs' ! (i + start p + k) = merge (refs ! (i + start p + k)) (vals p ! k)"
    by simp
  then show ?thesis
    by (cases "vals p ! k"; cases "refs ! (i + start p + k)")
      (auto simp: merge_def Let_def numeric_def payload_def split: option.splits)
qed

text \<open>
  A tagged weight 1 (the pattern \<^verbatim>\<open>a1/b=c,1,1\<close> on the word \<open>a\<close>) goes into an unset
  slot with its data; it leaves a slot that holds 1 or 2 as it is, data and all.  A
  plain weight 1 (the pattern \<^verbatim>\<open>a1\<close>) replaces a tagged 0, data and all, and leaves
  a 2: 1 and 2 give 2, not 3.  From text to positions: the tagged pattern gives the
  break its data; \<^verbatim>\<open>a1b\<close> alone breaks \<open>ab\<close> after the \<open>a\<close>; with \<^verbatim>\<open>2b\<close> the same
  slot gets 1 and 2, holds the even 2, and there is no break (the sum 3 would give one).
\<close>

theorem max_merge_witness:
  "window taggedDict ''.a.'' (1, 2) [NilV, NilV, NilV, NilV] =
     Inr [NilV, NilV, DataV \<lparr>hvalue = 1, hdata = Some [''b=c'', ''-1'', ''1'']\<rparr>, NilV]
   \<and> subWord ''.a.'' 1 2 = Inr ''a''
   \<and> patterns taggedDict ''a'' =
       Some \<lparr>start = 1, vals = [DataV \<lparr>hvalue = 1, hdata = Some [''b=c'', ''-1'', ''1'']\<rparr>]\<rparr>
   \<and> [NilV, NilV, DataV \<lparr>hvalue = 1, hdata = Some [''b=c'', ''-1'', ''1'']\<rparr>, NilV] ! 2 =
       DataV \<lparr>hvalue = 1, hdata = Some [''b=c'', ''-1'', ''1'']\<rparr>
   \<and> window taggedDict ''.a.'' (1, 2) [NilV, NilV, IntV 1, NilV] = Inr [NilV, NilV, IntV 1, NilV]
   \<and> window taggedDict ''.a.'' (1, 2)
         [NilV, NilV, DataV \<lparr>hvalue = 2, hdata = Some [''z'', ''0'', ''0'']\<rparr>, NilV] =
       Inr [NilV, NilV, DataV \<lparr>hvalue = 2, hdata = Some [''z'', ''0'', ''0'']\<rparr>, NilV]
   \<and> window a1Dict ''.a.'' (1, 2)
         [NilV, NilV, DataV \<lparr>hvalue = 0, hdata = Some [''z'', ''0'', ''0'']\<rparr>, NilV] =
       Inr [NilV, NilV, IntV 1, NilV]
   \<and> window a1Dict ''.a.'' (1, 2) [NilV, NilV, IntV 2, NilV] = Inr [NilV, NilV, IntV 2, NilV]
   \<and> window a1Dict ''.a.'' (1, 2) [NilV, NilV, IntV 1, NilV] = Inr [NilV, NilV, IntV 1, NilV]
   \<and> positionsIn plainExterns (''UTF-8'' @ [CHR 0x0A] @ ''a1/b=c,1,1'') ''a'' =
       Inr [\<lparr>hvalue = 1, hdata = Some [''b=c'', ''-1'', ''1'']\<rparr>]
   \<and> positionsIn plainExterns (''UTF-8'' @ [CHR 0x0A] @ ''a1b'') ''ab'' = Inr [\<lparr>hvalue = 1, hdata = None\<rparr>]
   \<and> positionsIn plainExterns (''UTF-8'' @ [CHR 0x0A] @ ''a1b'' @ [CHR 0x0A] @ ''2b'') ''ab'' = Inr []"
proof -
  have r: "positionsIn plainExterns (''UTF-8'' @ [CHR 0x0A] @ ''a1/b=c,1,1'') ''a'' =
      Inr [\<lparr>hvalue = 1, hdata = Some [''b=c'', ''-1'', ''1'']\<rparr>]"
    "positionsIn plainExterns (''UTF-8'' @ [CHR 0x0A] @ ''a1b'') ''ab'' = Inr [\<lparr>hvalue = 1, hdata = None\<rparr>]"
    "positionsIn plainExterns (''UTF-8'' @ [CHR 0x0A] @ ''a1b'' @ [CHR 0x0A] @ ''2b'') ''ab'' = Inr []"
    by code_simp+
  have w: "window taggedDict ''.a.'' (1, 2) [NilV, NilV, NilV, NilV] =
      Inr [NilV, NilV, DataV \<lparr>hvalue = 1, hdata = Some [''b=c'', ''-1'', ''1'']\<rparr>, NilV]"
    by code_simp
  have u: "window taggedDict ''.a.'' (1, 2) [NilV, NilV, IntV 1, NilV] = Inr [NilV, NilV, IntV 1, NilV]"
    "window taggedDict ''.a.'' (1, 2)
         [NilV, NilV, DataV \<lparr>hvalue = 2, hdata = Some [''z'', ''0'', ''0'']\<rparr>, NilV] =
       Inr [NilV, NilV, DataV \<lparr>hvalue = 2, hdata = Some [''z'', ''0'', ''0'']\<rparr>, NilV]"
    "window a1Dict ''.a.'' (1, 2)
         [NilV, NilV, DataV \<lparr>hvalue = 0, hdata = Some [''z'', ''0'', ''0'']\<rparr>, NilV] =
       Inr [NilV, NilV, IntV 1, NilV]"
    "window a1Dict ''.a.'' (1, 2) [NilV, NilV, IntV 2, NilV] = Inr [NilV, NilV, IntV 2, NilV]"
    "window a1Dict ''.a.'' (1, 2) [NilV, NilV, IntV 1, NilV] = Inr [NilV, NilV, IntV 1, NilV]"
    by code_simp+
  have s: "subWord ''.a.'' 1 2 = Inr ''a''" by code_simp
  have p: "patterns taggedDict ''a'' =
      Some \<lparr>start = 1, vals = [DataV \<lparr>hvalue = 1, hdata = Some [''b=c'', ''-1'', ''1'']\<rparr>]\<rparr>"
    by (simp add: taggedDict_def)
  have k: "0 < length (vals \<lparr>start = 1, vals = [DataV \<lparr>hvalue = 1, hdata = Some [''b=c'', ''-1'', ''1'']\<rparr>]\<rparr>)"
    by simp
  from max_merge [OF w s p k] w u s p r show ?thesis by (simp add: Let_def)
qed

subsection \<open>The exception-clause parser\<close>

lemma Split_no_sep: "sep \<notin> set s \<Longrightarrow> Split s sep = [s]"
  by (induction s) auto

lemma Split_append: "sep \<notin> set a \<Longrightarrow> Split (a @ sep # rest) sep = a # Split rest sep"
  by (induction a) auto

lemma Split_three:
  assumes "sep \<notin> set a" "sep \<notin> set b" "sep \<notin> set c"
  shows "Split (a @ sep # b @ sep # c) sep = [a, b, c]"
  using assms by (simp add: Split_append Split_no_sep)

lemma and_one_odd: "((v::int) AND 1 = 1) = odd v"
  by (simp add: and_one_eq mod_2_eq_odd)

lemma Parse_eq:
  "Parse p v =
     (if odd v
      then DataV \<lparr>hvalue = v, hdata = Some [change p, Itoa (wrap64 (index p - 1)), Itoa (cut p)]\<rparr>
      else IntV v,
      p\<lparr>index := wrap64 (index p - 1)\<rparr>)"
  by (simp add: Parse_def Let_def and_one_odd)


text \<open>
  Claim C8.  For a clause \<open>change,index,cut\<close> the parser starts with the counter at the
  number \<open>index\<close>, one more if the base pattern begins with a dot.  Each call
  first takes one off the counter; an odd weight then comes back tagged with the change
  text, the counter as it now stands and the cut, an even weight comes back as it is.
  (The counter is a 64-bit int, so the steps wrap around.)
\<close>

theorem alternative_parser:
  assumes "CHR '','' \<notin> set chg" "CHR '','' \<notin> set idx" "CHR '','' \<notin> set ct"
  shows "newAlternativeParser pattern (chg @ '','' @ idx @ '','' @ ct) =
           Inr \<lparr>change = chg,
                index = (if HasPrefix pattern ''.'' then wrap64 (atoi idx + 1) else atoi idx),
                cut = atoi ct\<rparr>
       \<and> Parse p v =
           (if odd v
            then DataV \<lparr>hvalue = v,
                        hdata = Some [change p, Itoa (wrap64 (index p - 1)), Itoa (cut p)]\<rparr>
            else IntV v,
            p\<lparr>index := wrap64 (index p - 1)\<rparr>)"
  using Split_three [OF assms] by (simp add: newAlternativeParser_def Let_def Parse_eq)


text \<open>The clause \<^verbatim>\<open>f=f,1,2\<close> on a pattern that starts with a dot, and its first call.\<close>

theorem alternative_parser_witness:
  "newAlternativeParser ''.a1b'' (''f=f'' @ '','' @ ''1'' @ '','' @ ''2'') =
     Inr \<lparr>change = ''f=f'', index = 2, cut = 2\<rparr>
   \<and> Parse \<lparr>change = ''f=f'', index = 2, cut = 2\<rparr> 1 =
     (DataV \<lparr>hvalue = 1, hdata = Some [''f=f'', ''1'', ''2'']\<rparr>,
      \<lparr>change = ''f=f'', index = 1, cut = 2\<rparr>)"
proof -
  have a: "CHR '','' \<notin> set ''f=f''" and b: "CHR '','' \<notin> set ''1''" and c: "CHR '','' \<notin> set ''2''"
    by simp_all
  have d: "atoi ''1'' = 1" "atoi ''2'' = 2" "HasPrefix ''.a1b'' ''.''"
    "wrap64 2 = 2" "wrap64 1 = 1" "Itoa 1 = ''1''" "Itoa 2 = ''2''"
    by code_simp+
  from alternative_parser [OF a b c, of "''.a1b''" "\<lparr>change = ''f=f'', index = 2, cut = 2\<rparr>" 1] d
  show ?thesis by simp
qed


subsection \<open>Case\<close>

lemma byte_char_of: "n < 256 \<Longrightarrow> byte (char_of n) = n"
  by (simp add: byte_def)

lemma char_of_byte: "char_of (byte c) = c"
  by (simp add: byte_def)

lemma lowerByte_ascii: "byte c < 0x80 \<Longrightarrow> byte (lowerByte c) < 0x80"
  by (auto simp: lowerByte_def byte_char_of)

lemma upperByte_ascii: "byte c < 0x80 \<Longrightarrow> byte (upperByte c) < 0x80"
  by (auto simp: upperByte_def byte_char_of)

lemma lowerByte_idem: "lowerByte (lowerByte c) = lowerByte c"
  by (auto simp: lowerByte_def byte_char_of)

lemma lowerByte_upperByte: "lowerByte (upperByte c) = lowerByte c"
proof (cases "0x61 \<le> byte c \<and> byte c \<le> 0x7A")
  case True
  then have "byte c - 32 < 256" by arith
  then have b: "byte (char_of (byte c - 32)) = byte c - 32"
    by (rule byte_char_of)
  from True have r: "0x41 \<le> byte c - 32 \<and> byte c - 32 \<le> 0x5A" by arith
  from True have "byte c - 32 + 32 = byte c" by arith
  then have l: "lowerByte (char_of (byte c - 32)) = c"
    using r b by (simp add: lowerByte_def char_of_byte)
  from True have "\<not> (0x41 \<le> byte c \<and> byte c \<le> 0x5A)" by arith
  then have "lowerByte c = c" by (auto simp: lowerByte_def)
  with l True show ?thesis by (simp add: upperByte_def)
next
  case False
  then show ?thesis by (auto simp: upperByte_def)
qed

lemma isASCII_caseFoldable: "isASCII w \<Longrightarrow> caseFoldable X w"
proof -
  assume a: "isASCII w"
  then have "isASCII (map lowerByte w)" "isASCII (map upperByte w)"
    by (auto simp: isASCII_def list_all_iff lowerByte_ascii upperByte_ascii)
  with a show ?thesis
    by (simp add: caseFoldable_def ToLower_def ToUpper_def lowerByte_idem lowerByte_upperByte)
qed


lemma Positions_cached:
  "Positions X dict w = Inr (pts, dict') \<Longrightarrow> cache dict' (ToLower X w) = Some pts"
  by (auto simp: Positions_def Let_def split: option.splits sum.splits)

lemma Positions_hit:
  "cache dict (ToLower X w) = Some pts \<Longrightarrow> Positions X dict w = Inr (pts, dict)"
  by (simp add: Positions_def)

text \<open>
  Claim C9.  For a case-foldable word, \<open>Positions\<close> gives the same for the word, for
  the word lowered and for the word raised: asked of the same dictionary, or asked of
  the dictionary as an earlier call for the word has left it.
\<close>

theorem case_insensitive:
  assumes "caseFoldable X w"
  shows "Positions X dict (ToLower X w) = Positions X dict w
       \<and> Positions X dict (ToUpper X w) = Positions X dict w
       \<and> (Positions X dict w = Inr (pts, dict') \<longrightarrow>
            Positions X dict' (ToLower X w) = Inr (pts, dict')
          \<and> Positions X dict' (ToUpper X w) = Inr (pts, dict'))"
proof -
  from assms have l: "ToLower X (ToLower X w) = ToLower X w"
    and u: "ToLower X (ToUpper X w) = ToLower X w"
    by (simp_all add: caseFoldable_def)
  have "Positions X dict' (ToLower X w) = Inr (pts, dict')
      \<and> Positions X dict' (ToUpper X w) = Inr (pts, dict')"
    if "Positions X dict w = Inr (pts, dict')"
    using Positions_cached [OF that] l u by (simp add: Positions_hit)
  with l u show ?thesis by (simp add: Positions_def)
qed

text \<open>All-ASCII words are case-foldable; here \<open>Hit\<close>, \<open>hit\<close> and \<open>HIT\<close>.\<close>

theorem case_insensitive_witness:
  "caseFoldable plainExterns ''Hit''
   \<and> Positions plainExterns a1Dict ''hit'' = Positions plainExterns a1Dict ''Hit''
   \<and> Positions plainExterns a1Dict ''HIT'' = Positions plainExterns a1Dict ''Hit''"
proof -
  have "isASCII ''Hit''" by code_simp
  then have c: "caseFoldable plainExterns ''Hit''" by (rule isASCII_caseFoldable)
  have e: "ToLower plainExterns ''Hit'' = ''hit''" "ToUpper plainExterns ''Hit'' = ''HIT''"
    by code_simp+
  from case_insensitive [OF c, of a1Dict] c e show ?thesis by simp
qed

subsection \<open>The windows of the scan\<close>

lemma byteIndex_eq: "runeIndex \<le> length s \<Longrightarrow> byteIndex s runeIndex = Inr runeIndex"
  by (simp add: byteIndex_def)

lemma subWord_eq:
  "i \<le> j \<Longrightarrow> j \<le> length s \<Longrightarrow> subWord s i j = Inr (take (j - i) (drop i s))"
  by (simp add: subWord_def byteIndex_eq slice_def)

lemma windows_iff:
  "(i, j) \<in> set (windows ml n) \<longleftrightarrow> i < n - 1 \<and> i < j \<and> j \<le> i + ml \<and> j \<le> n"
proof -
  have "(i, j) \<in> set (windows ml n) \<longleftrightarrow>
      (\<exists>i' \<in> set [0 ..< n - 1]. (i, j) \<in> set (map (\<lambda>j. (i', j)) [i' + 1 ..< min (i' + ml) n + 1]))"
    unfolding windows_def by simp
  also have "\<dots> \<longleftrightarrow> i \<in> set [0 ..< n - 1] \<and> j \<in> set [i + 1 ..< min (i + ml) n + 1]"
    by (auto simp del: set_upt)
  also have "\<dots> \<longleftrightarrow> i < n - 1 \<and> i < j \<and> j \<le> i + ml \<and> j \<le> n"
    by auto
  finally show ?thesis .
qed

lemma window_width:
  assumes "(i, j) \<in> set (windows ml n)" and "subWord pw i j = Inr sw"
  shows "length sw \<le> ml"
proof -
  from assms(1) have "i < j" "j \<le> i + ml" by (auto simp: windows_iff)
  moreover from assms(2) have "sw = take (j - i) (drop i pw)"
    by (auto simp: subWord_def byteIndex_def slice_def split: if_splits)
  ultimately show ?thesis by simp
qed

lemma window_length:
  "window dict pw ij refs = Inr refs' \<Longrightarrow> length refs' = length refs"
  by (auto simp: window_def mergeValues_length split: sum.splits option.splits)

lemma points_bounds:
  "p \<in> set (points i refs) \<Longrightarrow> int i - 1 \<le> hvalue p \<and> hvalue p < int i + int (length refs) - 1"
  by (induction refs arbitrary: i) (fastforce split: iface.splits if_splits)+

lemma window_cache_irrelevant: "window (dict\<lparr>cache := c\<rparr>) = window dict"
  by (intro ext) (simp add: window_def split: sum.splits option.splits)

lemma scan_cache_irrelevant: "scan (dict\<lparr>cache := c\<rparr>) w = scan dict w"
  by (simp add: scan_def window_cache_irrelevant)

lemma scan_bounds:
  assumes "scan dict w = Inr pts" and "p \<in> set pts"
  shows "- 1 \<le> hvalue p \<and> hvalue p \<le> int (RuneCountInString w) + 1"
proof -
  let ?pw = "''.'' @ w @ ''.''"
  let ?n = "RuneCountInString ?pw"
  from assms(1) obtain refs where
    f: "foldM (window dict ?pw) (windows (maxlen dict) ?n) (replicate (?n + 1) NilV) = Inr refs"
    and pts: "pts = points 0 refs"
    by (auto simp: scan_def Let_def split: sum.splits)
  have "length refs = ?n + 1"
    by (rule foldM_invariant [OF f]) (auto dest: window_length)
  with points_bounds [of p 0 refs] assms(2) pts RuneCount_pointed [of w]
  show ?thesis by simp
qed

lemma Positions_scan:
  "cacheOK dict \<Longrightarrow> Positions X dict w = Inr (pts, dict') \<Longrightarrow> scan dict (ToLower X w) = Inr pts"
  by (auto simp: Positions_def cacheOK_def Let_def split: option.splits sum.splits)

lemma Positions_cacheOK:
  "cacheOK dict \<Longrightarrow> Positions X dict w = Inr (pts, dict') \<Longrightarrow> cacheOK dict'"
  by (auto simp: Positions_def cacheOK_def Let_def scan_cache_irrelevant
      split: option.splits sum.splits if_splits)

lemma ToLower_empty: "ToLower X [] = []"
  by (simp add: ToLower_def isASCII_def)

lemma scan_empty:
  assumes "patterns dict ''.'' = None" and "patterns dict ''..'' = None"
  shows "scan dict [] = Inr []"
proof -
  have n: "RuneCountInString (''.'' @ [] @ ''.'') = 2"
    using RuneCount_pointed [of "[]"] by (simp add: RuneCountInString.simps [of "[]"])
  have "\<exists>refs. foldM (window dict ''..'') (windows (maxlen dict) 2) [NilV, NilV, NilV] = Inr refs
      \<and> refs = [NilV, NilV, NilV]"
  proof (rule foldM_total)
    show "[NilV, NilV, NilV] = [NilV, NilV, NilV]" ..
  next
    fix x and t :: "iface list"
    assume x: "x \<in> set (windows (maxlen dict) 2)" and t: "t = [NilV, NilV, NilV]"
    obtain i j where ij: "x = (i, j)" by (cases x)
    with x have "i = 0" "j = 1 \<or> j = 2" by (auto simp: windows_iff)
    then have "subWord ''..'' i j = Inr ''.'' \<or> subWord ''..'' i j = Inr ''..''"
      by (auto simp: subWord_eq)
    with assms ij have "window dict ''..'' x t = Inr t"
      by (auto simp: window_def)
    with t show "\<exists>t'. window dict ''..'' x t = Inr t' \<and> t' = [NilV, NilV, NilV]" by simp
  qed
  then have "foldM (window dict ''..'') (windows (maxlen dict) 2) [NilV, NilV, NilV] = Inr [NilV, NilV, NilV]"
    by simp
  with n show ?thesis
    by (simp add: scan_def Let_def numeral_2_eq_2)
qed

lemma scan_total:
  assumes "fits (patterns dict)"
  shows "\<exists>pts. scan dict w = Inr pts"
proof -
  let ?pw = "''.'' @ w @ ''.''"
  let ?n = "RuneCountInString ?pw"
  have nl: "?n \<le> length ?pw" by (rule RuneCount_le_length)
  have "\<exists>refs. foldM (window dict ?pw) (windows (maxlen dict) ?n) (replicate (?n + 1) NilV) = Inr refs
      \<and> length refs = ?n + 1"
  proof (rule foldM_total)
    show "length (replicate (?n + 1) NilV) = ?n + 1" by simp
  next
    fix x and t :: "iface list"
    assume x: "x \<in> set (windows (maxlen dict) ?n)" and t: "length t = ?n + 1"
    obtain i j where ij: "x = (i, j)" by (cases x)
    with x have b: "i < j" "j \<le> ?n" by (auto simp: windows_iff)
    with nl have sw: "subWord ?pw i j = Inr (take (j - i) (drop i ?pw))"
      by (intro subWord_eq) auto
    from b nl have len: "length (take (j - i) (drop i ?pw)) = j - i" by simp
    show "\<exists>t'. window dict ?pw x t = Inr t' \<and> length t' = ?n + 1"
    proof (cases "patterns dict (take (j - i) (drop i ?pw))")
      case None
      with sw ij t show ?thesis by (simp add: window_def)
    next
      case (Some p)
      with assms len have "start p + length (vals p) \<le> j - i + 1"
        unfolding fits_def by metis
      with b t have "i + start p + 0 + length (vals p) \<le> length t" by simp
      from mergeValues_total [OF this] obtain t' where
        m: "mergeValues t (i + start p) 0 (vals p) = Inr t'" by blast
      with mergeValues_length [OF m] sw ij t Some show ?thesis
        by (simp add: window_def)
    qed
  qed
  then show ?thesis by (auto simp: scan_def Let_def)
qed


subsection \<open>The loader\<close>

lemma trimStart_Inr:
  "trimStart vs st = Inr s \<Longrightarrow> st \<le> s \<and> s < length vs \<and> vs ! s \<noteq> IntV 0"
proof (induction vs st rule: trimStart.induct)
  case (1 vs st)
  from "1.prems" have lt: "st < length vs"
    by (subst (asm) trimStart.simps) (auto split: if_splits)
  show ?case
  proof (cases "vs ! st = IntV 0")
    case True
    with lt "1.prems" have "trimStart vs (Suc st) = Inr s"
      by (subst (asm) trimStart.simps) simp
    from "1.IH" [OF _ True this] lt show ?thesis by simp
  next
    case False
    with lt "1.prems" have "s = st"
      by (subst (asm) trimStart.simps) simp
    with lt False show ?thesis by simp
  qed
qed

lemma trimEnd_Inr:
  "trimEnd values en = Inr e \<Longrightarrow>
     0 < e \<and> e \<le> en \<and> e \<le> length values \<and> values ! (e - 1) \<noteq> IntV 0
     \<and> (\<forall>m. e \<le> m \<and> m < en \<longrightarrow> values ! m = IntV 0)"
proof (induction en)
  case 0
  then show ?case by simp
next
  case (Suc en)
  from Suc.prems have lt: "en < length values" by (auto split: if_splits)
  show ?case
  proof (cases "values ! en = IntV 0")
    case True
    with lt Suc.prems have "trimEnd values en = Inr e" by simp
    from Suc.IH [OF this] True show ?thesis
      by (auto simp: less_Suc_eq)
  next
    case False
    with lt Suc.prems have "e = Suc en" by simp
    with lt False show ?thesis by auto
  qed
qed


text \<open>What a successful store did: nothing, or one new entry.\<close>

lemma store_cases:
  assumes "store st tags values = Inr st'"
  obtains (skipped) "\<not> hasNonZero values" "st' = st"
  | (stored) s e where "hasNonZero values" "s < e" "e \<le> length values"
      "values ! s \<noteq> IntV 0" "values ! (e - 1) \<noteq> IntV 0"
      "fst st' = (fst st)(concat tags \<mapsto> \<lparr>start = s, vals = take (e - s) (drop s values)\<rparr>)"
      "snd st' = max (snd st) (length tags)"
proof (cases "hasNonZero values")
  case False
  with assms have "st' = st" by (simp add: store_def)
  with False show ?thesis by (rule skipped)
next
  case True
  with assms obtain s e where s: "trimStart values 0 = Inr s"
    and e: "trimEnd values (length values) = Inr e" and le: "s \<le> e"
    and st': "st' = ((fst st)(concat tags \<mapsto> \<lparr>start = s, vals = take (e - s) (drop s values)\<rparr>),
                 if snd st < length tags then length tags else snd st)"
    by (auto simp: store_def split: sum.splits if_splits)
  from trimStart_Inr [OF s] have s1: "s < length values" "values ! s \<noteq> IntV 0" by simp_all
  from trimEnd_Inr [OF e] have e1: "0 < e" "e \<le> length values" "values ! (e - 1) \<noteq> IntV 0"
    and z: "\<forall>m. e \<le> m \<and> m < length values \<longrightarrow> values ! m = IntV 0" by simp_all
  from z s1 have "s < e" by (meson not_le_imp_less)
  with True e1 s1 st' show ?thesis by (intro stored [of s e]) (auto simp: max_def)
qed

lemma loadLine_cases:
  assumes "loadLine X line st = Inr st'"
  obtains (skipped) "st' = st"
  | (scanned) pat pat' f where "prepare X line = Some pat" "factoryFor pat = Inr (pat', f)"
      "store st (map snd (parse pat')) (makeValues f (parse pat')) = Inr st'"
  using assms by (auto simp: loadLine_def split: option.splits sum.splits)


lemma NewHyphDict_Contents:
  assumes "NewHyphDict X (Contents data) = Inr dict"
  obtains st where
    "foldM (loadLine X) (tl (decodeLines X (Split data (CHR 0x0A)))) (Map.empty, 0) = Inr st"
    "dict = \<lparr>patterns = fst st, cache = Map.empty, maxlen = snd st\<rparr>"
  using assms by (auto simp: NewHyphDict_def Let_def split: if_splits sum.splits)

lemma NewHyphDict_invariant:
  assumes "NewHyphDict X f = Inr dict" and "P (Map.empty, 0)"
    and "\<And>line st st'. P st \<Longrightarrow> loadLine X line st = Inr st' \<Longrightarrow> P st'"
  shows "P (patterns dict, maxlen dict)"
proof -
  from assms(1) obtain ls st where f: "foldM (loadLine X) ls (Map.empty, 0) = Inr st"
    and d: "dict = \<lparr>patterns = fst st, cache = Map.empty, maxlen = snd st\<rparr>"
    by (auto simp: NewHyphDict_def Let_def split: embedded.splits if_splits sum.splits)
  have "P st"
    by (rule foldM_invariant [where P = P, OF f assms(2)]) (rule assms(3))
  with d show ?thesis by simp
qed

lemma NewHyphDict_cacheOK: "NewHyphDict X f = Inr dict \<Longrightarrow> cacheOK dict"
  by (auto simp: NewHyphDict_def cacheOK_def Let_def split: embedded.splits if_splits sum.splits)

lemma parseFrom_digit:
  "(i, s) \<in> set (parseFrom x) \<Longrightarrow> i = [] \<or> (\<exists>c. i = [c] \<and> isDigit c)"
  by (induction x rule: parseFrom.induct) (auto split: if_splits)

lemma parseFrom_tag:
  "(i, s) \<in> set (parseFrom x) \<Longrightarrow> RuneCountInString s \<le> 1"
proof (induction x rule: parseFrom.induct)
  case 1
  then show ?case by simp
next
  case (2 c t)
  have e: "RuneCountInString [] \<le> 1" by (simp add: RuneCountInString.simps)
  from 2 e RuneCount_one_rune [of t] RuneCount_one_rune [of "c # t"]
  show ?case by (auto split: if_splits)
qed

lemma parse_digit: "(i, s) \<in> set (parse x) \<Longrightarrow> i = [] \<or> (\<exists>c. i = [c] \<and> isDigit c)"
  by (auto simp: parse_def dest: parseFrom_digit split: if_splits)

lemma parse_tag: "(i, s) \<in> set (parse x) \<Longrightarrow> RuneCountInString s \<le> 1"
  by (auto simp: parse_def RuneCountInString.simps [of "[]"] dest: parseFrom_tag split: if_splits)

lemma Atoi_digit: "i = [] \<or> (\<exists>c. i = [c] \<and> isDigit c) \<Longrightarrow> 0 \<le> Atoi i \<and> Atoi i \<le> 9"
  by (auto simp: Atoi_def digitsValue_def isDigit_def byte_def)

lemma call_weightOK: "0 \<le> v \<Longrightarrow> weightOK (fst (call f v))"
  by (cases f) (auto simp: weightOK_def Parse_def Let_def and_one_odd)

lemma makeValues_weightOK:
  "\<forall>(i, s) \<in> set ms. 0 \<le> Atoi i \<Longrightarrow> v \<in> set (makeValues f ms) \<Longrightarrow> weightOK v"
proof (induction ms arbitrary: f)
  case Nil
  then show ?case by simp
next
  case (Cons m ms)
  obtain i s where m: "m = (i, s)" by (cases m)
  obtain r f' where c: "call f (Atoi i) = (r, f')" by (cases "call f (Atoi i)")
  from Cons.prems(1) m have "0 \<le> Atoi i" by simp
  from call_weightOK [OF this, of f] c have "weightOK r" by simp
  moreover from Cons.prems(1) have "\<forall>(i, s) \<in> set ms. 0 \<le> Atoi i" by simp
  note Cons.IH [OF this, of f']
  ultimately show ?case using Cons.prems(2) m c by auto
qed

lemma makeValues_length: "length (makeValues f ms) = length ms"
  by (induction ms arbitrary: f) (auto split: prod.splits)

lemma line_weightOK: "v \<in> set (makeValues f (parse pat)) \<Longrightarrow> weightOK v"
proof (rule makeValues_weightOK)
  show "\<forall>(i, s) \<in> set (parse pat). 0 \<le> Atoi i"
    using parse_digit Atoi_digit by fastforce
qed

lemma weightOK_zero: "weightOK v \<Longrightarrow> numeric v = 0 \<longleftrightarrow> v = IntV 0"
  by (auto simp: weightOK_def numeric_def split: iface.splits)

lemma weightOK_signal:
  "weightOK v \<Longrightarrow> (case v of IntV i \<Rightarrow> 0 < i | DataV d \<Rightarrow> True | NilV \<Rightarrow> False) = (numeric v \<noteq> 0)"
  by (cases v) (auto simp: weightOK_def numeric_def)

lemma weightOK_hasNonZero:
  assumes "\<forall>v \<in> set vs. weightOK v"
  shows "hasNonZero vs \<longleftrightarrow> (\<exists>v \<in> set vs. numeric v \<noteq> 0)"
proof -
  have "hasNonZero vs \<longleftrightarrow>
      (\<exists>v \<in> set vs. case v of IntV i \<Rightarrow> 0 < i | DataV d \<Rightarrow> True | NilV \<Rightarrow> False)"
    by (simp add: hasNonZero_def list_ex_iff)
  also have "\<dots> \<longleftrightarrow> (\<exists>v \<in> set vs. numeric v \<noteq> 0)"
    using assms weightOK_signal by (intro bex_cong refl) blast
  finally show ?thesis .
qed

lemma zero_line_skipped:
  assumes "lineWeights X line = Some vs" and "\<forall>v \<in> set vs. numeric v = 0"
  shows "loadLine X line st = Inr st"
proof -
  from assms(1) obtain pat pat' f where p: "prepare X line = Some pat"
    and f: "factoryFor pat = Inr (pat', f)" and vs: "vs = makeValues f (parse pat')"
    by (auto simp: lineWeights_def split: option.splits sum.splits)
  have "\<forall>v \<in> set vs. weightOK v" using vs line_weightOK by blast
  from weightOK_hasNonZero [OF this] assms(2) have "\<not> hasNonZero vs" by simp
  with p f vs show ?thesis by (simp add: loadLine_def store_def)
qed

lemma loadLine_signal:
  assumes "loadLine X line st = Inr st'" and "signal (fst st)"
  shows "signal (fst st')"
  using assms(1)
proof (cases rule: loadLine_cases)
  case skipped
  with assms(2) show ?thesis by simp
next
  case (scanned pat pat' f)
  let ?vs = "makeValues f (parse pat')"
  from scanned(3) show ?thesis
  proof (cases rule: store_cases)
    case skipped
    with assms(2) show ?thesis by simp
  next
    case (stored s e)
    let ?sl = "take (e - s) (drop s ?vs)"
    from stored(2,3) have ne: "?sl \<noteq> []" by simp
    from stored(2,3) have h: "hd ?sl = ?vs ! s"
      by (simp add: hd_conv_nth)
    from stored(2,3) have l: "last ?sl = ?vs ! (e - 1)"
      by (simp add: last_conv_nth min_absorb2)
    from stored(2,3) have "?vs ! s \<in> set ?vs" "?vs ! (e - 1) \<in> set ?vs" by simp_all
    then have "weightOK (?vs ! s)" "weightOK (?vs ! (e - 1))" by (auto intro: line_weightOK)
    with stored(4,5) have "numeric (?vs ! s) \<noteq> 0" "numeric (?vs ! (e - 1)) \<noteq> 0"
      by (simp_all add: weightOK_zero)
    with ne h l assms(2) stored(6) show ?thesis
      by (auto simp: signal_def)
  qed
qed

lemma loadLine_lettersWithin:
  assumes "loadLine X line st = Inr st'" and "lettersWithin st"
  shows "lettersWithin st'"
  using assms(1)
proof (cases rule: loadLine_cases)
  case skipped
  with assms(2) show ?thesis by simp
next
  case (scanned pat pat' f)
  let ?tags = "map snd (parse pat')"
  from scanned(3) show ?thesis
  proof (cases rule: store_cases)
    case skipped
    with assms(2) show ?thesis by simp
  next
    case (stored s e)
    have new: "concat ?tags = concat ?tags \<and> length ?tags \<le> snd st'
        \<and> (\<forall>t \<in> set ?tags. RuneCountInString t \<le> 1)"
      using stored(7) parse_tag by auto
    show ?thesis
      unfolding lettersWithin_def
    proof (intro allI impI)
      fix k p
      assume kp: "fst st' k = Some p"
      show "\<exists>tags. concat tags = k \<and> length tags \<le> snd st' \<and> (\<forall>t \<in> set tags. RuneCountInString t \<le> 1)"
      proof (cases "k = concat ?tags")
        case True
        with new show ?thesis by blast
      next
        case False
        with kp stored(6) have "fst st k = Some p" by simp
        with assms(2) obtain tags where "concat tags = k" "length tags \<le> snd st"
          "\<forall>t \<in> set tags. RuneCountInString t \<le> 1"
          unfolding lettersWithin_def by blast
        with stored(7) show ?thesis by (intro exI [of _ tags]) auto
      qed
    qed
  qed
qed

lemma adjacentDigits_tl: "adjacentDigits (tl s) \<Longrightarrow> adjacentDigits s"
  by (cases s rule: adjacentDigits.cases) auto

lemma adjacentDigits_drop: "adjacentDigits (drop n s) \<Longrightarrow> adjacentDigits s"
proof (induction n arbitrary: s)
  case 0
  then show ?case by simp
next
  case (Suc n)
  then have "adjacentDigits (drop n (tl s))" by (simp add: drop_Suc)
  then have "adjacentDigits (tl s)" by (rule Suc.IH)
  then show ?case by (rule adjacentDigits_tl)
qed

lemma parseFrom_count:
  "\<not> adjacentDigits x \<Longrightarrow> length (parseFrom x) \<le> length (concat (map snd (parseFrom x))) + 1"
proof (induction x rule: parseFrom.induct)
  case 1
  then show ?case by simp
next
  case (2 c t)
  show ?case
  proof (cases "isDigit c")
    case True
    show ?thesis
    proof (cases "t = []")
      case True
      with \<open>isDigit c\<close> show ?thesis by simp
    next
      case False
      then obtain b r where t: "t = b # r" by (cases t) auto
      with True "2.prems" have nb: "\<not> isDigit b" by auto
      from "2.prems" have "\<not> adjacentDigits t" using adjacentDigits_tl [of "c # t"] by auto
      then have "\<not> adjacentDigits (drop (rune_width t) t)" using adjacentDigits_drop by blast
      with "2.IH"(1) True False nb t
      have "length (parseFrom (drop (rune_width t) t))
          \<le> length (concat (map snd (parseFrom (drop (rune_width t) t)))) + 1" by simp
      moreover have "0 < length (take (rune_width t) t)"
        using False rune_width_pos [of t] by simp
      ultimately show ?thesis using True False nb t by simp
    qed
  next
    case False
    from "2.prems" have "\<not> adjacentDigits t" using adjacentDigits_tl [of "c # t"] by auto
    then have "\<not> adjacentDigits (drop (rune_width (c # t) - 1) t)"
      using adjacentDigits_drop by blast
    with "2.IH"(3) False
    have "length (parseFrom (drop (rune_width (c # t) - 1) t))
        \<le> length (concat (map snd (parseFrom (drop (rune_width (c # t) - 1) t)))) + 1" by simp
    moreover have "0 < length (take (rune_width (c # t)) (c # t))"
      using rune_width_pos [of "c # t"] by simp
    ultimately show ?thesis using False by simp
  qed
qed

lemma parse_count:
  "\<not> adjacentDigits x \<Longrightarrow> length (parse x) \<le> length (concat (map snd (parse x))) + 1"
  using parseFrom_count [of x] by (simp add: parse_def)

lemma loadLine_fits:
  assumes "loadLine X line st = Inr st'" and "fits (fst st)" and "singleDigits X line"
  shows "fits (fst st')"
  using assms(1)
proof (cases rule: loadLine_cases)
  case skipped
  with assms(2) show ?thesis by simp
next
  case (scanned pat pat' f)
  let ?ms = "parse pat'"
  from scanned(1,2) assms(3) have "\<not> adjacentDigits pat'"
    by (simp add: singleDigits_def scannedPattern_def)
  then have c: "length ?ms \<le> length (concat (map snd ?ms)) + 1" by (rule parse_count)
  from scanned(3) show ?thesis
  proof (cases rule: store_cases)
    case skipped
    with assms(2) show ?thesis by simp
  next
    case (stored s e)
    from stored(2,3) have "s + length (take (e - s) (drop s (makeValues f ?ms))) \<le> length ?ms"
      by (simp add: makeValues_length)
    with c assms(2) stored(6) show ?thesis
      by (auto simp: fits_def)
  qed
qed

lemma loadLine_maxlen:
  assumes "loadLine X line st = Inr st'"
  shows "snd st' = max (snd st) (storedTokens X line)"
proof (cases "prepare X line")
  case None
  with assms show ?thesis
    by (simp add: loadLine_def storedTokens_def lineWeights_def)
next
  case (Some pat)
  with assms obtain pat' f where f: "factoryFor pat = Inr (pat', f)"
    and s: "store st (map snd (parse pat')) (makeValues f (parse pat')) = Inr st'"
    by (auto simp: loadLine_def split: sum.splits)
  from Some f have t: "storedTokens X line =
      (if hasNonZero (makeValues f (parse pat')) then length (parse pat') else 0)"
    by (simp add: storedTokens_def lineWeights_def makeValues_length)
  from s show ?thesis
  proof (cases rule: store_cases)
    case skipped
    with t show ?thesis by simp
  next
    case (stored s e)
    with t show ?thesis by simp
  qed
qed

lemma Max_insert_insert:
  "finite S \<Longrightarrow> Max (insert (a::nat) (insert b S)) = Max (insert (max a b) S)"
  by (cases "S = {}") (simp_all add: max.assoc)

lemma foldM_maxlen:
  "foldM (loadLine X) ls st = Inr st' \<Longrightarrow>
     snd st' = Max (insert (snd st) (storedTokens X ` set ls))"
proof (induction ls arbitrary: st)
  case Nil
  then show ?case by simp
next
  case (Cons l ls)
  from Cons.prems obtain t where t: "loadLine X l st = Inr t"
    and r: "foldM (loadLine X) ls t = Inr st'"
    by (auto split: sum.splits)
  from Cons.IH [OF r] loadLine_maxlen [OF t]
  have "snd st' = Max (insert (max (snd st) (storedTokens X l)) (storedTokens X ` set ls))"
    by simp
  also have "\<dots> = Max (insert (snd st) (insert (storedTokens X l) (storedTokens X ` set ls)))"
    by (rule Max_insert_insert [symmetric]) simp
  finally show ?case by simp
qed

subsection \<open>The dictionary of the pattern a1\<close>

lemmas run_defs = NewHyphDict_def decodeLines_def loadLine_def prepare_def factoryFor_def
  store_def parse_def hasNonZero_def Contains_def HasPrefix_def ignored_def ToLower_def
  isASCII_def lowerByte_def asciiSpace_def isDigit_def byte_def isHexDigit_def
  plainExterns_def Atoi_def digitsValue_def Let_def trimStart.simps SplitN2_def first_def
  in_range_def

lemma load_a1:
  "NewHyphDict plainExterns (Contents (''UTF-8'' @ [CHR 0x0A] @ ''a1'')) = Inr a1Dict"
  by (simp add: run_defs a1Dict_def)

lemma load_tagged:
  "NewHyphDict plainExterns (Contents (''UTF-8'' @ [CHR 0x0A] @ ''a1/b=c,1,1'')) = Inr taggedDict"
proof -
  have i: "Itoa (- 1) = ''-1''" "Itoa 1 = ''1''" "wrap64 0 = 0" "wrap64 (- 1) = - 1"
    by code_simp+
  show ?thesis
    by (simp add: run_defs taggedDict_def newAlternativeParser_def Parse_def atoi_def i)
qed

lemma cacheOK_a1: "cacheOK a1Dict"
  using load_a1 by (rule NewHyphDict_cacheOK)

lemma scan_a1: "scan a1Dict ''a'' = Inr [\<lparr>hvalue = 1, hdata = None\<rparr>]"
  by code_simp

lemma Positions_a1:
  "Positions plainExterns a1Dict ''a'' =
     Inr ([\<lparr>hvalue = 1, hdata = None\<rparr>],
          a1Dict\<lparr>cache := (cache a1Dict)(''a'' \<mapsto> [\<lparr>hvalue = 1, hdata = None\<rparr>])\<rparr>)"
proof -
  have "ToLower plainExterns ''a'' = ''a''" by code_simp
  moreover have "cache a1Dict ''a'' = None" by (simp add: a1Dict_def)
  ultimately show ?thesis using scan_a1 by (simp add: Positions_def)
qed

subsection \<open>Offsets\<close>

text \<open>
  Claim C5, as amended.  Every offset that \<open>Positions\<close> gives lies between \<open>-1\<close> and
  the number of characters of the lowercased word plus one: the slot index, from 0 to
  \<open>L\<close>, less one.  (The claim's bounds \<open>0 \<le> offset < length w\<close> do not hold: a
  weight after the last letter of the word gives the offset \<open>length w\<close>.)
\<close>

theorem offsets_bounds:
  assumes "cacheOK dict" and "Positions X dict w = Inr (pts, dict')" and "p \<in> set pts"
  shows "- 1 \<le> hvalue p \<and> hvalue p \<le> int (RuneCountInString (ToLower X w)) + 1"
  using scan_bounds [OF Positions_scan [OF assms(1,2)] assms(3)] .

theorem offsets_bounds_witness:
  "cacheOK a1Dict
   \<and> Positions plainExterns a1Dict ''a'' =
       Inr ([\<lparr>hvalue = 1, hdata = None\<rparr>],
            a1Dict\<lparr>cache := (cache a1Dict)(''a'' \<mapsto> [\<lparr>hvalue = 1, hdata = None\<rparr>])\<rparr>)
   \<and> - 1 \<le> hvalue \<lparr>hvalue = 1, hdata = None\<rparr>
   \<and> hvalue \<lparr>hvalue = 1, hdata = None\<rparr> \<le> int (RuneCountInString (ToLower plainExterns ''a'')) + 1"
proof -
  have m: "\<lparr>hvalue = 1, hdata = None\<rparr> \<in> set [\<lparr>hvalue = 1, hdata = None\<rparr>]" by simp
  from offsets_bounds [OF cacheOK_a1 Positions_a1 m] cacheOK_a1 Positions_a1
  show ?thesis by simp
qed

text \<open>
  With the pattern \<^verbatim>\<open>a1\<close> the word \<open>a\<close> gets the offset 1, which is its length.
  A digit before the first dot or two digits after the last letter reach the ends of
  the range: \<^verbatim>\<open>1.\<close> gives the offset \<open>-1\<close>, \<^verbatim>\<open>a21\<close> gives 2.
\<close>

theorem offset_at_word_length:
  "positionsIn plainExterns (''UTF-8'' @ [CHR 0x0A] @ ''a1'') ''a'' = Inr [\<lparr>hvalue = 1, hdata = None\<rparr>]
   \<and> \<not> hvalue \<lparr>hvalue = 1, hdata = None\<rparr> < int (length ''a'')
   \<and> positionsIn plainExterns (''UTF-8'' @ [CHR 0x0A] @ ''1.'') ''a'' = Inr [\<lparr>hvalue = - 1, hdata = None\<rparr>]
   \<and> positionsIn plainExterns (''UTF-8'' @ [CHR 0x0A] @ ''a21'') ''a'' = Inr [\<lparr>hvalue = 2, hdata = None\<rparr>]"
  by code_simp

subsection \<open>The empty word\<close>

text \<open>
  Claim C6, as amended.  For a dictionary with no entry under the keys \<^verbatim>\<open>.\<close> and
  \<^verbatim>\<open>..\<close> (the pointed empty word and its first character), \<open>Positions\<close> of the
  empty word gives no point.
\<close>

theorem empty_word:
  assumes "cacheOK dict" and "patterns dict ''.'' = None" and "patterns dict ''..'' = None"
  shows "map_sum id fst (Positions X dict []) = Inr []"
  using assms(1) scan_empty [OF assms(2,3)]
  by (auto simp: Positions_def ToLower_empty cacheOK_def Let_def split: option.splits)

theorem empty_word_witness:
  "cacheOK a1Dict \<and> patterns a1Dict ''.'' = None \<and> patterns a1Dict ''..'' = None
   \<and> map_sum id fst (Positions plainExterns a1Dict []) = Inr []"
proof -
  have a: "patterns a1Dict ''.'' = None" and b: "patterns a1Dict ''..'' = None"
    by (simp_all add: a1Dict_def)
  from empty_word [OF cacheOK_a1 a b] cacheOK_a1 a b show ?thesis by simp
qed

text \<open>With the pattern \<^verbatim>\<open>.1\<close> the empty word gets a point, at offset 0.\<close>

theorem empty_word_point:
  "positionsIn plainExterns (''UTF-8'' @ [CHR 0x0A] @ ''.1'') [] = Inr [\<lparr>hvalue = 0, hdata = None\<rparr>]"
  by code_simp

subsection \<open>No panic in the scan\<close>

text \<open>
  Claim C7, as amended.  \<open>Positions\<close> returns normally, every index into the
  accumulator within its bounds, for every word and every dictionary in which each
  entry has at most one weight more than its key has bytes (\<open>fits\<close>); the dictionary
  it returns is such a dictionary again.  \<open>NewHyphDict\<close> gives such a dictionary
  whenever no pattern it scans has two digits side by side.
\<close>

theorem positions_total:
  "(fits (patterns dict) \<longrightarrow>
      (\<exists>pts dict'. Positions X dict w = Inr (pts, dict') \<and> fits (patterns dict')))
   \<and> (NewHyphDict X (Contents data) = Inr dict
        \<and> list_all (singleDigits X) (tl (decodeLines X (Split data (CHR 0x0A)))) \<longrightarrow>
      fits (patterns dict))"
proof (rule conjI; rule impI)
  assume f: "fits (patterns dict)"
  from scan_total [OF f, of "ToLower X w"] obtain q where "scan dict (ToLower X w) = Inr q"
    by blast
  with f show "\<exists>pts dict'. Positions X dict w = Inr (pts, dict') \<and> fits (patterns dict')"
    by (auto simp: Positions_def Let_def split: option.splits)
next
  assume a: "NewHyphDict X (Contents data) = Inr dict
      \<and> list_all (singleDigits X) (tl (decodeLines X (Split data (CHR 0x0A))))"
  then obtain st where
    f: "foldM (loadLine X) (tl (decodeLines X (Split data (CHR 0x0A)))) (Map.empty, 0) = Inr st"
    and d: "dict = \<lparr>patterns = fst st, cache = Map.empty, maxlen = snd st\<rparr>"
    by (auto elim: NewHyphDict_Contents)
  have "fits (fst st)"
  proof (rule foldM_invariant [where P = "\<lambda>st. fits (fst st)", OF f])
    show "fits (fst (Map.empty, 0 :: nat))" by (simp add: fits_def)
  next
    fix line and t t' :: "(string \<rightharpoonup> pattern) \<times> nat"
    assume "line \<in> set (tl (decodeLines X (Split data (CHR 0x0A))))"
      and t: "fits (fst t)" and l: "loadLine X line t = Inr t'"
    with a have "singleDigits X line" by (simp add: list_all_iff)
    with l t show "fits (fst t')" by (rule loadLine_fits)
  qed
  with d show "fits (patterns dict)" by simp
qed

theorem positions_total_witness:
  "fits (patterns a1Dict)
   \<and> (\<exists>pts dict'. Positions plainExterns a1Dict ''a'' = Inr (pts, dict') \<and> fits (patterns dict'))
   \<and> NewHyphDict plainExterns (Contents (''UTF-8'' @ [CHR 0x0A] @ ''a1'')) = Inr a1Dict
   \<and> list_all (singleDigits plainExterns)
       (tl (decodeLines plainExterns (Split (''UTF-8'' @ [CHR 0x0A] @ ''a1'') (CHR 0x0A))))"
proof -
  have s: "list_all (singleDigits plainExterns)
      (tl (decodeLines plainExterns (Split (''UTF-8'' @ [CHR 0x0A] @ ''a1'') (CHR 0x0A))))"
    by code_simp
  from positions_total [of a1Dict plainExterns "''a''" "''UTF-8'' @ [CHR 0x0A] @ ''a1''"]
    load_a1 s
  show ?thesis by simp
qed

text \<open>
  The line \<^verbatim>\<open>a1234\<close> loads (five tokens, so \<open>maxlen\<close> is 5), and the word \<open>a\<close> then
  runs the merge past the end of the accumulator.
\<close>

theorem positions_panic:
  "map_sum id maxlen (NewHyphDict plainExterns (Contents (''UTF-8'' @ [CHR 0x0A] @ ''a1234''))) = Inr 5
   \<and> positionsIn plainExterns (''UTF-8'' @ [CHR 0x0A] @ ''a1234'') ''a'' = Inl IndexOutOfRange"
  by code_simp

subsection \<open>maxlen\<close>

text \<open>
  Claim C3, as amended.  After \<open>NewHyphDict\<close>, \<open>maxlen\<close> is exactly the largest
  number of tokens (an optional digit and an optional letter each) among the lines
  that were stored, 0 if none was.  It is an upper bound on the number of letters of
  every stored key, not always met: a digit with no letter after it, as the last of
  \<^verbatim>\<open>a1\<close>, is a token too.  The scan never looks up a substring of more than
  \<open>maxlen\<close> bytes.
\<close>

theorem maxlen_bounds:
  assumes "NewHyphDict X (Contents data) = Inr dict"
  shows "maxlen dict =
           Max (insert 0 (storedTokens X ` set (tl (decodeLines X (Split data (CHR 0x0A))))))
       \<and> (patterns dict k = Some p \<longrightarrow> RuneCountInString k \<le> maxlen dict)
       \<and> ((i, j) \<in> set (windows (maxlen dict) n) \<and> subWord pw i j = Inr sw \<longrightarrow>
           length sw \<le> maxlen dict)"
proof -
  from assms obtain st where
    f: "foldM (loadLine X) (tl (decodeLines X (Split data (CHR 0x0A)))) (Map.empty, 0) = Inr st"
    and d: "dict = \<lparr>patterns = fst st, cache = Map.empty, maxlen = snd st\<rparr>"
    by (rule NewHyphDict_Contents)
  from foldM_maxlen [OF f] d have m: "maxlen dict =
      Max (insert 0 (storedTokens X ` set (tl (decodeLines X (Split data (CHR 0x0A))))))"
    by simp
  have "lettersWithin (patterns dict, maxlen dict)"
  proof (rule NewHyphDict_invariant [where P = lettersWithin, OF assms])
    show "lettersWithin (Map.empty, 0)" by (simp add: lettersWithin_def)
  next
    fix line st st'
    assume "lettersWithin st" "loadLine X line st = Inr st'"
    then show "lettersWithin st'" by (rule loadLine_lettersWithin [rotated])
  qed
  then have "RuneCountInString k \<le> maxlen dict" if "patterns dict k = Some p"
    using that RuneCount_concat unfolding lettersWithin_def
    by (metis fst_conv snd_conv le_trans)
  with m window_width show ?thesis by blast
qed

theorem maxlen_bounds_witness:
  "NewHyphDict plainExterns (Contents (''UTF-8'' @ [CHR 0x0A] @ ''a1'')) = Inr a1Dict
   \<and> maxlen a1Dict =
       Max (insert 0 (storedTokens plainExterns `
         set (tl (decodeLines plainExterns (Split (''UTF-8'' @ [CHR 0x0A] @ ''a1'') (CHR 0x0A))))))
   \<and> patterns a1Dict ''a'' = Some \<lparr>start = 1, vals = [IntV 1]\<rparr>
   \<and> RuneCountInString ''a'' \<le> maxlen a1Dict
   \<and> (0, 2) \<in> set (windows (maxlen a1Dict) 3) \<and> subWord ''.a.'' 0 2 = Inr ''.a''
   \<and> length ''.a'' \<le> maxlen a1Dict"
proof -
  have p: "patterns a1Dict ''a'' = Some \<lparr>start = 1, vals = [IntV 1]\<rparr>"
    by (simp add: a1Dict_def)
  have w: "(0, 2) \<in> set (windows (maxlen a1Dict) 3)"
    by (simp add: windows_iff a1Dict_def)
  have s: "subWord ''.a.'' 0 2 = Inr ''.a''" by code_simp
  from maxlen_bounds [OF load_a1, of "''a''" "\<lparr>start = 1, vals = [IntV 1]\<rparr>" 0 2 3 "''.a.''" "''.a''"]
    load_a1 p w s
  show ?thesis by simp
qed

text \<open>
  With the pattern \<^verbatim>\<open>a1\<close> the only key is \<open>a\<close>, of length 1, and \<open>maxlen\<close> is 2; for
  the word \<open>a\<close> the scan looks up \<^verbatim>\<open>.a\<close>, of length 2.
\<close>

theorem maxlen_above_longest_key:
  "NewHyphDict plainExterns (Contents (''UTF-8'' @ [CHR 0x0A] @ ''a1'')) = Inr a1Dict
   \<and> dom (patterns a1Dict) = {''a''} \<and> length ''a'' = 1 \<and> maxlen a1Dict = 2
   \<and> RuneCountInString ''.a.'' = 3
   \<and> (0, 2) \<in> set (windows (maxlen a1Dict) 3) \<and> subWord ''.a.'' 0 2 = Inr ''.a''
   \<and> length ''.a'' = 2"
proof -
  have "RuneCountInString ''.a.'' = 3" "subWord ''.a.'' 0 2 = Inr ''.a''" by code_simp+
  moreover have "(0, 2) \<in> set (windows (maxlen a1Dict) 3)"
    by (simp add: windows_iff a1Dict_def)
  ultimately show ?thesis using load_a1 by (simp add: a1Dict_def)
qed

subsection \<open>Patterns without a signal\<close>

text \<open>
  Claim C10.  A line all of whose weights are zero leaves the pattern map and \<open>maxlen\<close>
  as they were.  So in a dictionary that \<open>NewHyphDict\<close> has built every entry has a
  weight sequence that is not empty and holds a non-zero weight; trimmed, it starts and
  ends with one.
\<close>

theorem zero_signal_never_stored:
  "(lineWeights X line = Some vs \<and> (\<forall>v \<in> set vs. numeric v = 0) \<longrightarrow> loadLine X line st = Inr st)
   \<and> (NewHyphDict X f = Inr dict \<and> patterns dict k = Some p \<longrightarrow>
        vals p \<noteq> [] \<and> (\<exists>v \<in> set (vals p). numeric v \<noteq> 0)
        \<and> numeric (hd (vals p)) \<noteq> 0 \<and> numeric (last (vals p)) \<noteq> 0)"
proof (rule conjI; rule impI)
  assume "lineWeights X line = Some vs \<and> (\<forall>v \<in> set vs. numeric v = 0)"
  then show "loadLine X line st = Inr st" by (auto intro: zero_line_skipped)
next
  assume a: "NewHyphDict X f = Inr dict \<and> patterns dict k = Some p"
  then have n: "NewHyphDict X f = Inr dict" by simp
  have "signal (fst (patterns dict, maxlen dict))"
  proof (rule NewHyphDict_invariant [where P = "\<lambda>st. signal (fst st)", OF n])
    show "signal (fst (Map.empty, 0 :: nat))" by (simp add: signal_def)
  next
    fix line and st st' :: "(string \<rightharpoonup> pattern) \<times> nat"
    assume "signal (fst st)" "loadLine X line st = Inr st'"
    then show "signal (fst st')" by (rule loadLine_signal [rotated])
  qed
  with a have s: "vals p \<noteq> [] \<and> numeric (hd (vals p)) \<noteq> 0 \<and> numeric (last (vals p)) \<noteq> 0"
    by (auto simp: signal_def)
  then have "hd (vals p) \<in> set (vals p)" by simp
  with s show "vals p \<noteq> [] \<and> (\<exists>v \<in> set (vals p). numeric v \<noteq> 0)
        \<and> numeric (hd (vals p)) \<noteq> 0 \<and> numeric (last (vals p)) \<noteq> 0" by blast
qed

text \<open>The line \<^verbatim>\<open>a0b\<close> is skipped; the entry of \<^verbatim>\<open>a1\<close> holds the weight 1.\<close>

theorem zero_signal_never_stored_witness:
  "lineWeights plainExterns ''a0b'' = Some [IntV 0, IntV 0]
   \<and> loadLine plainExterns ''a0b'' (patterns a1Dict, maxlen a1Dict) = Inr (patterns a1Dict, maxlen a1Dict)
   \<and> NewHyphDict plainExterns (Contents (''UTF-8'' @ [CHR 0x0A] @ ''a1'')) = Inr a1Dict
   \<and> patterns a1Dict ''a'' = Some \<lparr>start = 1, vals = [IntV 1]\<rparr>
   \<and> numeric (hd (vals \<lparr>start = 1, vals = [IntV 1]\<rparr>)) \<noteq> 0"
proof -
  have w: "lineWeights plainExterns ''a0b'' = Some [IntV 0, IntV 0]" by code_simp
  have z: "\<forall>v \<in> set [IntV 0, IntV 0]. numeric v = 0" by (simp add: numeric_def)
  have p: "patterns a1Dict ''a'' = Some \<lparr>start = 1, vals = [IntV 1]\<rparr>"
    by (simp add: a1Dict_def)
  from zero_signal_never_stored [of plainExterns "''a0b''" "[IntV 0, IntV 0]"
      "(patterns a1Dict, maxlen a1Dict)" "Contents (''UTF-8'' @ [CHR 0x0A] @ ''a1'')" a1Dict
      "''a''" "\<lparr>start = 1, vals = [IntV 1]\<rparr>"] w z p load_a1
  show ?thesis by simp
qed

subsection \<open>Where the code departs from the specification\<close>

text \<open>
  Claim C1.  \<open>byteIndex\<close> returns the rune index it is given, so the window
  \<open>[i, j)\<close> is cut out of the bytes of the pointed word, not out of its code points.
  For the two-letter word e-acute, a (the bytes \<open>C3 A9 61\<close>) the window \<open>[2, 3)\<close>
  is the byte \<open>A9\<close> where the code point is \<open>a\<close>; the last byte of the word is
  never reached, and the pattern \<^verbatim>\<open>1a\<close>, which gives the word \<open>ea\<close> a point before
  its \<open>a\<close>, gives this word none.
\<close>

theorem window_is_cut_by_bytes:
  "byteIndex (''.'' @ [CHR 0xC3, CHR 0xA9] @ ''a.'') 2 = Inr 2
   \<and> subWord (''.'' @ [CHR 0xC3, CHR 0xA9] @ ''a.'') 2 3 = Inr [CHR 0xA9]
   \<and> runeWindow (''.'' @ [CHR 0xC3, CHR 0xA9] @ ''a.'') 2 3 = ''a''
   \<and> positionsIn plainExterns (''UTF-8'' @ [CHR 0x0A] @ ''1a'') ([CHR 0xC3, CHR 0xA9] @ ''a'') = Inr []
   \<and> positionsIn plainExterns (''UTF-8'' @ [CHR 0x0A] @ ''1a'') ''ea'' = Inr [\<lparr>hvalue = 1, hdata = None\<rparr>]"
  by code_simp

text \<open>
  Claim C4.  A clause with fewer than three parts stops the loading: \<^verbatim>\<open>parts[1]\<close>
  is out of range.  (Fields that are there and are not numbers do become zero.)
\<close>

theorem short_clause_panics:
  "newAlternativeParser ''a1b'' ''c=d'' = Inl IndexOutOfRange
   \<and> map_sum id maxlen (NewHyphDict plainExterns (Contents (''UTF-8'' @ [CHR 0x0A] @ ''a1b/c=d'')))
       = Inl IndexOutOfRange
   \<and> newAlternativeParser ''a1b'' ''c=d,x,y'' = Inr \<lparr>change = ''c=d'', index = 0, cut = 0\<rparr>"
  by code_simp

end
